theory Spec2Isabelle
  imports Complex_Main "HOL-Library.Monad_Syntax"
begin

section \<open>Dates\<close>

text \<open>
  A JavaScript \<open>Date\<close> is modelled by its time value: the number of milliseconds since
  1970-01-01T00:00:00Z, an integer. The local time zone is taken to be UTC (no offset, no
  daylight saving), the time value is unbounded, and \<open>Invalid Date\<close> is not a value of
  the model. The calendar functions below are the ones of the ECMAScript specification
  (\<open>Day\<close>, \<open>DayFromYear\<close>, \<open>YearFromTime\<close>, \<open>MonthFromTime\<close>, \<open>DateFromTime\<close>,
  \<open>WeekDay\<close>, \<open>MakeDay\<close>), on the proleptic Gregorian calendar.
\<close>

type_synonym Date = int

definition msPerDay :: int where
  "msPerDay = 86400000"

definition Day :: "Date \<Rightarrow> int" where
  "Day t = t div msPerDay"

definition TimeWithinDay :: "Date \<Rightarrow> int" where
  "TimeWithinDay t = t mod msPerDay"

definition DayFromYear :: "int \<Rightarrow> int" where
  "DayFromYear y =
     365 * (y - 1970) + (y - 1969) div 4 - (y - 1901) div 100 + (y - 1601) div 400"

text \<open>
  ECMAScript: the largest \<open>y\<close> with \<open>DayFromYear y \<le> d\<close>. Computed from the estimate
  \<open>1970 + 400 d div 146097\<close>, which is off by at most one year.
\<close>

definition YearFromDay :: "int \<Rightarrow> int" where
  "YearFromDay d =
     (let y0 = 1970 + (400 * d) div 146097
      in if DayFromYear (y0 + 1) \<le> d then y0 + 1
         else if DayFromYear y0 \<le> d then y0
         else y0 - 1)"

definition InLeapYear :: "int \<Rightarrow> bool" where
  "InLeapYear y = (y mod 4 = 0 \<and> (y mod 100 \<noteq> 0 \<or> y mod 400 = 0))"

definition DayWithinYear :: "int \<Rightarrow> int" where
  "DayWithinYear d = d - DayFromYear (YearFromDay d)"

text \<open>The number of days of the year before the first of month \<open>m\<close> (0 = January).\<close>

definition monthStart :: "bool \<Rightarrow> int \<Rightarrow> int" where
  "monthStart leap m =
     (let L = (if leap then 1 else 0) in
      if m = 0 then 0 else if m = 1 then 31 else if m = 2 then 59 + L
      else if m = 3 then 90 + L else if m = 4 then 120 + L else if m = 5 then 151 + L
      else if m = 6 then 181 + L else if m = 7 then 212 + L else if m = 8 then 243 + L
      else if m = 9 then 273 + L else if m = 10 then 304 + L else 334 + L)"

definition MonthFromDay :: "int \<Rightarrow> int" where
  "MonthFromDay d =
     (let w = DayWithinYear d; L = (if InLeapYear (YearFromDay d) then 1 else 0) in
      if w < 31 then 0 else if w < 59 + L then 1 else if w < 90 + L then 2
      else if w < 120 + L then 3 else if w < 151 + L then 4 else if w < 181 + L then 5
      else if w < 212 + L then 6 else if w < 243 + L then 7 else if w < 273 + L then 8
      else if w < 304 + L then 9 else if w < 334 + L then 10 else 11)"

definition DateFromDay :: "int \<Rightarrow> int" where
  "DateFromDay d =
     DayWithinYear d - monthStart (InLeapYear (YearFromDay d)) (MonthFromDay d) + 1"

definition MakeDay :: "int \<Rightarrow> int \<Rightarrow> int \<Rightarrow> int" where
  "MakeDay year month date =
     (let ym = year + month div 12; mn = month mod 12
      in DayFromYear ym + monthStart (InLeapYear ym) mn + date - 1)"

definition getFullYear :: "Date \<Rightarrow> int" where
  "getFullYear t = YearFromDay (Day t)"

definition getMonth :: "Date \<Rightarrow> int" where
  "getMonth t = MonthFromDay (Day t)"

definition getDate :: "Date \<Rightarrow> int" where
  "getDate t = DateFromDay (Day t)"

text \<open>\<open>getDay\<close>: 0 is Sunday, 6 is Saturday; 1970-01-01 was a Thursday.\<close>

definition getDay :: "Date \<Rightarrow> int" where
  "getDay t = (Day t + 4) mod 7"

definition getTime :: "Date \<Rightarrow> int" where
  "getTime t = t"

text \<open>
  \<open>new Date(year, monthIndex, day)\<close>: midnight of that day; a year from 0 to 99 means
  1900 + year. Month and day may lie outside their usual ranges and carry over.
\<close>

definition newDate :: "int \<Rightarrow> int \<Rightarrow> int \<Rightarrow> Date" where
  "newDate year monthIndex day =
     MakeDay (if 0 \<le> year \<and> year \<le> 99 then 1900 + year else year) monthIndex day * msPerDay"

text \<open>\<open>d.setDate(dt)\<close>: day \<open>dt\<close> of the month of \<open>d\<close>, at the time of day of \<open>d\<close>.\<close>

definition setDate :: "Date \<Rightarrow> int \<Rightarrow> Date" where
  "setDate t dt = MakeDay (getFullYear t) (getMonth t) dt * msPerDay + TimeWithinDay t"

text \<open>The remainder operator \<open>%\<close> of JavaScript takes the sign of the dividend.\<close>

definition js_rem :: "int \<Rightarrow> int \<Rightarrow> int" where
  "js_rem a b = sgn a * (\<bar>a\<bar> mod \<bar>b\<bar>)"

section \<open>Canadian holidays\<close>

definition calculateEaster :: "int \<Rightarrow> Date" where
  "calculateEaster year =
     (let a = js_rem year 19;
          b = year div 100;
          c = js_rem year 100;
          d = b div 4;
          e = js_rem b 4;
          f = (b + 8) div 25;
          g = (b - f + 1) div 3;
          h = js_rem (19 * a + b - d - g + 15) 30;
          i = c div 4;
          k = js_rem c 4;
          l = js_rem (32 + 2 * e + 2 * i - h - k) 7;
          m = (a + 11 * h + 22 * l) div 451;
          month = (h + l - 7 * m + 114) div 31;
          day = js_rem (h + l - 7 * m + 114) 31 + 1
      in newDate year (month - 1) day)"

definition getCanadianHolidays :: "int \<Rightarrow> Date list" where
  "getCanadianHolidays year =
     (let newYear = newDate year 0 1;
          familyDay = newDate year 1 1;
          firstMonday = (if getDay familyDay = 1 then familyDay
                         else newDate year 1 (8 - getDay familyDay));
          family = getTime firstMonday + 14 * 24 * 60 * 60 * 1000;
          easter = calculateEaster year;
          goodFriday = getTime easter - 2 * 24 * 60 * 60 * 1000;
          easterMonday = getTime easter + 24 * 60 * 60 * 1000;
          victoria = newDate year 4 25;
          victoriaMonday =
            getTime victoria - js_rem (getDay victoria + 6) 7 * 24 * 60 * 60 * 1000;
          canadaDay = (if getDay (newDate year 6 1) = 0 then newDate year 6 2
                       else newDate year 6 1);
          civicHoliday = newDate year 7 1;
          firstMondayAug = (if getDay civicHoliday = 1 then civicHoliday
                            else newDate year 7 (8 - getDay civicHoliday));
          labourDay = newDate year 8 1;
          firstMondaySep = (if getDay labourDay = 1 then labourDay
                            else newDate year 8 (8 - getDay labourDay));
          thanksgiving = newDate year 9 1;
          firstMondayOct = (if getDay thanksgiving = 1 then thanksgiving
                            else newDate year 9 (8 - getDay thanksgiving));
          thanks = getTime firstMondayOct + 7 * 24 * 60 * 60 * 1000;
          remembrance = newDate year 10 11;
          christmas = (if getDay (newDate year 11 25) = 0 then newDate year 11 26
                       else newDate year 11 25);
          boxingDay = (if getDay (newDate year 11 26) = 0 then newDate year 11 27
                       else if getDay (newDate year 11 26) = 6 then newDate year 11 28
                       else newDate year 11 26)
      in [newYear, family, goodFriday, easterMonday, victoriaMonday, canadaDay,
          firstMondayAug, firstMondaySep, thanks, remembrance, christmas, boxingDay])"

definition isCanadianHoliday :: "Date \<Rightarrow> bool" where
  "isCanadianHoliday date =
     (let year = getFullYear date;
          holidays = getCanadianHolidays year
      in list_ex (\<lambda>holiday. getFullYear holiday = getFullYear date \<and>
                            getMonth holiday = getMonth date \<and>
                            getDate holiday = getDate date) holidays)"

section \<open>Business days\<close>

definition isWeekend :: "Date \<Rightarrow> bool" where
  "isWeekend date = (let day = getDay date in day = 0 \<or> day = 6)"

definition isBusinessDay :: "Date \<Rightarrow> bool" where
  "isBusinessDay date = (\<not> isWeekend date \<and> \<not> isCanadianHoliday date)"

text \<open>
  The \<open>while\<close> loop of \<open>getNextBusinessDay\<close>. It has no bound in the source, so the model
  is a partial function: \<open>None\<close> stands for a scan that never ends.
\<close>

partial_function (option) getNextBusinessDay_loop :: "Date \<Rightarrow> Date option" where
  "getNextBusinessDay_loop nextDay =
     (if \<not> isBusinessDay nextDay
      then getNextBusinessDay_loop (setDate nextDay (getDate nextDay + 1))
      else Some nextDay)"

declare getNextBusinessDay_loop.simps [code]

definition getNextBusinessDay :: "Date \<Rightarrow> Date option" where
  "getNextBusinessDay date = getNextBusinessDay_loop (setDate date (getDate date + 1))"

definition adjustPaymentDate :: "Date \<Rightarrow> Date option" where
  "adjustPaymentDate date =
     (if isBusinessDay date then Some date else getNextBusinessDay date)"

definition getDaysBetween :: "Date \<Rightarrow> Date \<Rightarrow> int" where
  "getDaysBetween startDate endDate =
     (let timeDiff = getTime endDate - getTime startDate
      in \<lceil>real_of_int timeDiff / (1000 * 3600 * 24)\<rceil>)"

section \<open>Numbers\<close>

text \<open>
  A JavaScript number is modelled as an exact real: rounding of IEEE doubles is left out,
  except in the payment count (see \<open>toDouble\<close> below). An operation whose result is
  \<open>NaN\<close> or an infinity returns \<open>None\<close>, and \<open>None\<close> propagates, as
  \<open>NaN\<close> does through arithmetic.
\<close>

definition js_div :: "real \<Rightarrow> real \<Rightarrow> real option" where
  "js_div a b = (if b = 0 then None else Some (a / b))"

text \<open>
  \<open>Math.pow\<close>: 1 for exponent 0; the real power for a positive base; for base 0, 0 with
  a positive exponent and an infinity with a negative one; for a negative base, the
  integer power when the exponent is an integer and \<open>NaN\<close> otherwise.
\<close>

definition Math_pow :: "real \<Rightarrow> real \<Rightarrow> real option" where
  "Math_pow x y =
     (if y = 0 then Some 1
      else if 0 < x then Some (x powr y)
      else if x = 0 then (if 0 < y then Some 0 else None)
      else if y = of_int \<lfloor>y\<rfloor> then Some (x powi \<lfloor>y\<rfloor>)
      else None)"

text \<open>\<open>Math.round\<close> rounds to the nearest integer, halves upwards.\<close>

definition Math_round :: "real \<Rightarrow> int" where
  "Math_round x = \<lfloor>x + 1 / 2\<rfloor>"

text \<open>
  Under \<open>Math.floor\<close> a rounding error of the last bit can change the result by a whole
  unit, so there the double arithmetic of the source is modelled: \<open>toDouble\<close> rounds a
  real to the nearest binary64 value, ties to the even significand (53 bits, exponents
  from -1022 on, subnormal numbers included). Overflow to an infinity is left out.
\<close>

definition roundTiesToEven :: "real \<Rightarrow> int" where
  "roundTiesToEven m =
     (let f = \<lfloor>m\<rfloor>
      in if m - of_int f < 1 / 2 then f
         else if 1 / 2 < m - of_int f then f + 1
         else if even f then f else f + 1)"

definition binaryExponent :: "real \<Rightarrow> int" where
  "binaryExponent x = max \<lfloor>log 2 \<bar>x\<bar>\<rfloor> (- 1022)"

definition toDouble :: "real \<Rightarrow> real" where
  "toDouble x =
     (if x = 0 then 0
      else let ulp = 2 powi (binaryExponent x - 52)
           in of_int (roundTiesToEven (x / ulp)) * ulp)"

section \<open>The amortization engine\<close>

datatype PaymentType = End | Beginning

record LoanInput =
  loanAmount :: real
  annualInterestRate :: real
  rateTermMonths :: real
  amortizationMonths :: real
  paymentsPerYear :: real
  startDate :: Date
  firstPaymentDate :: Date
  rateTermMaturityDate :: Date
  compoundingFrequency :: real
  paymentType :: PaymentType

record PaymentRow =
  paymentNumber :: int
  paymentDate :: Date
  beginningBalance :: real
  scheduledPayment :: real
  principalPayment :: real
  interestPayment :: real
  endingBalance :: real
  cumulativeInterest :: real
  daysBetweenPayments :: int

text \<open>\<open>monthlyPayment\<close> is \<open>None\<close> where the source holds \<open>NaN\<close> or an infinity.\<close>

record LoanSummary =
  monthlyPayment :: "real option"
  totalInterest :: real
  totalPayments :: real
  rateTermInterest :: real
  rateTermPrincipal :: real
  numberOfPayments :: nat

text \<open>
  The validation of \<open>loanInputSchema\<close>, on dates that are already parsed. The engine
  itself does not call it.
\<close>

definition loanInputSchema :: "LoanInput \<Rightarrow> bool" where
  "loanInputSchema data =
     (1000 \<le> loanAmount data \<and> loanAmount data \<le> 100000000 \<and>
      0.01 \<le> annualInterestRate data \<and> annualInterestRate data \<le> 50 \<and>
      1 \<le> rateTermMonths data \<and> rateTermMonths data \<le> 600 \<and>
      1 \<le> amortizationMonths data \<and> amortizationMonths data \<le> 600 \<and>
      paymentsPerYear data = of_int \<lfloor>paymentsPerYear data\<rfloor> \<and>
      1 \<le> paymentsPerYear data \<and> paymentsPerYear data \<le> 365 \<and>
      compoundingFrequency data = of_int \<lfloor>compoundingFrequency data\<rfloor> \<and>
      1 \<le> compoundingFrequency data \<and> compoundingFrequency data \<le> 365 \<and>
      firstPaymentDate data \<ge> startDate data \<and>
      rateTermMaturityDate data > startDate data)"

text \<open>
  \<open>calculatePaymentAmount\<close>. Its last parameter defaults to 2 in the source; the engine
  always passes it.
\<close>

definition calculatePaymentAmount :: "real \<Rightarrow> real \<Rightarrow> real \<Rightarrow> real \<Rightarrow> real \<Rightarrow> real option" where
  "calculatePaymentAmount principal' annualRate nPayments perYear compounding =
     do {
       q \<leftarrow> js_div annualRate (100 * compounding);
       e \<leftarrow> js_div compounding perYear;
       p \<leftarrow> Math_pow (1 + q) e;
       let effectiveRate = p - 1 in
       if effectiveRate = 0 then js_div principal' nPayments
       else do {
         g \<leftarrow> Math_pow (1 + effectiveRate) nPayments;
         js_div (principal' * (effectiveRate * g)) (g - 1)
       }
     }"

text \<open>
  \<open>const totalPayments = Math.floor((amortizationMonths / 12) * paymentsPerYear)\<close>, the
  quotient and the product each rounded to a double as the source computes them.
\<close>

definition totalPaymentCount :: "LoanInput \<Rightarrow> int" where
  "totalPaymentCount input =
     \<lfloor>toDouble (toDouble (amortizationMonths input / 12) * paymentsPerYear input)\<rfloor>"

text \<open>The variables of the loop of \<open>calculateAmortizationSchedule\<close>.\<close>

record LoopState =
  schedule :: "PaymentRow list"
  currentBalance :: real
  cumulativeInterestAcc :: real
  previousPaymentDate :: Date
  rateTermInterestAcc :: real
  rateTermPrincipalAcc :: real

text \<open>
  The body of the loop for payment \<open>i\<close>, up to the \<open>break\<close>; \<open>None\<close> if the business
  day scan does not return.
\<close>

definition paymentStep :: "LoanInput \<Rightarrow> int \<Rightarrow> real \<Rightarrow> int \<Rightarrow> int \<Rightarrow> LoopState \<Rightarrow> LoopState option" where
  "paymentStep input nPayments payment paymentFrequencyDays i s =
     (let scheduledDate = setDate (firstPaymentDate input)
            (getDate (firstPaymentDate input) + (i - 1) * paymentFrequencyDays)
      in case adjustPaymentDate scheduledDate of
           None \<Rightarrow> None
         | Some adjustedPaymentDate \<Rightarrow>
            (let daysBetween = getDaysBetween (previousPaymentDate s) adjustedPaymentDate;
                 dailyRate = annualInterestRate input / 100 / 365.25;
                 interest = currentBalance s * dailyRate * real_of_int daysBetween;
                 principal0 = payment - interest;
                 principal = (if i = nPayments \<or> principal0 > currentBalance s
                              then currentBalance s else principal0);
                 ending = max 0 (currentBalance s - principal);
                 cumulative = cumulativeInterestAcc s + interest;
                 inTerm = (adjustedPaymentDate \<le> rateTermMaturityDate input)
             in Some \<lparr>
                  schedule = schedule s @
                    [\<lparr>paymentNumber = i,
                      paymentDate = adjustedPaymentDate,
                      beginningBalance = currentBalance s,
                      scheduledPayment = principal + interest,
                      principalPayment = principal,
                      interestPayment = interest,
                      endingBalance = ending,
                      cumulativeInterest = cumulative,
                      daysBetweenPayments = daysBetween\<rparr>],
                  currentBalance = ending,
                  cumulativeInterestAcc = cumulative,
                  previousPaymentDate = adjustedPaymentDate,
                  rateTermInterestAcc =
                    (if inTerm then rateTermInterestAcc s + interest else rateTermInterestAcc s),
                  rateTermPrincipalAcc =
                    (if inTerm then rateTermPrincipalAcc s + principal
                     else rateTermPrincipalAcc s)\<rparr>))"

function amortizationLoop ::
  "LoanInput \<Rightarrow> int \<Rightarrow> real \<Rightarrow> int \<Rightarrow> int \<Rightarrow> LoopState \<Rightarrow> LoopState option" where
  "amortizationLoop input nPayments payment paymentFrequencyDays i s =
     (if i \<le> nPayments then
        (case paymentStep input nPayments payment paymentFrequencyDays i s of
           None \<Rightarrow> None
         | Some s' \<Rightarrow>
             if currentBalance s' \<le> 0.01 then Some s'
             else amortizationLoop input nPayments payment paymentFrequencyDays (i + 1) s')
      else Some s)"
  by pat_completeness auto
termination
  by (relation "measure (\<lambda>(input, nPayments, payment, paymentFrequencyDays, i, s). nat (nPayments + 1 - i))")
    auto

definition summarize :: "real option \<Rightarrow> LoopState \<Rightarrow> LoanSummary" where
  "summarize payment s =
     \<lparr>monthlyPayment = payment,
      totalInterest = cumulativeInterestAcc s,
      totalPayments = foldl (\<lambda>sum row. sum + scheduledPayment row) 0 (schedule s),
      rateTermInterest = rateTermInterestAcc s,
      rateTermPrincipal = rateTermPrincipalAcc s,
      numberOfPayments = length (schedule s)\<rparr>"

text \<open>
  What the real-number model cannot return: \<open>NotFinite\<close>, when the loop would run on a
  payment or a payment frequency that is \<open>NaN\<close> or infinite; \<open>NoReturn\<close>, when the
  business day scan does not end.
\<close>

datatype failure = NotFinite | NoReturn

definition calculateAmortizationSchedule :: "LoanInput \<Rightarrow> failure + PaymentRow list \<times> LoanSummary" where
  "calculateAmortizationSchedule input =
     (let nPayments = totalPaymentCount input;
          payment = calculatePaymentAmount (loanAmount input) (annualInterestRate input)
                      (of_int nPayments) (paymentsPerYear input) (compoundingFrequency input);
          paymentFrequencyDays = map_option Math_round (js_div 365.25 (paymentsPerYear input));
          s0 = \<lparr>schedule = [],
                currentBalance = loanAmount input,
                cumulativeInterestAcc = 0,
                previousPaymentDate = startDate input,
                rateTermInterestAcc = 0,
                rateTermPrincipalAcc = 0\<rparr>
      in if nPayments < 1 then Inr (schedule s0, summarize payment s0)
         else case (payment, paymentFrequencyDays) of
                (Some p, Some f) \<Rightarrow>
                  (case amortizationLoop input nPayments p f 1 s0 of
                     None \<Rightarrow> Inl NoReturn
                   | Some s \<Rightarrow> Inr (schedule s, summarize payment s))
              | _ \<Rightarrow> Inl NotFinite)"

section \<open>Reference definitions from the specification\<close>

text \<open>
  The Easter computation as the specification words it (the anonymous Gregorian algorithm,
  after Meeus, Jones and Butcher), with the mathematical \<open>mod\<close>: month and day of
  Easter Sunday in year \<open>Y\<close>.
\<close>

definition spec_easter :: "int \<Rightarrow> int \<times> int" where
  "spec_easter Y =
     (let a = Y mod 19;
          b = Y div 100;
          c = Y mod 100;
          d = b div 4;
          e = b mod 4;
          f = (b + 8) div 25;
          g = (b - f + 1) div 3;
          h = (19 * a + b - d - g + 15) mod 30;
          i = c div 4;
          k = c mod 4;
          l = (32 + 2 * e + 2 * i - h - k) mod 7;
          m = (a + 11 * h + 22 * l) div 451
      in ((h + l - 7 * m + 114) div 31, (h + l - 7 * m + 114) mod 31 + 1))"

text \<open>
  The payment formula as the specification words it: the effective rate per payment
  period, and the fixed payment of an annuity of \<open>n\<close> payments.
\<close>

definition spec_effectiveRate :: "real \<Rightarrow> real \<Rightarrow> real \<Rightarrow> real" where
  "spec_effectiveRate annualRate compounding perYear =
     (1 + annualRate / 100 / compounding) powr (compounding / perYear) - 1"

definition spec_payment :: "real \<Rightarrow> real \<Rightarrow> nat \<Rightarrow> real" where
  "spec_payment principal' effectiveRate n =
     principal' * effectiveRate * (1 + effectiveRate) ^ n / ((1 + effectiveRate) ^ n - 1)"

section \<open>A worked example\<close>

text \<open>
  A loan of 1000 at 50 percent, compounded and paid once a year over 24 months, starting
  on 2024-01-01, with the first payment on Monday 2026-01-05 and the rate term ending on
  2025-01-01. The input passes \<open>loanInputSchema\<close>.
\<close>

definition ex0 :: LoanInput where
  "ex0 = \<lparr>loanAmount = 1000, annualInterestRate = 50, rateTermMonths = 12,
     amortizationMonths = 24, paymentsPerYear = 1, startDate = 1704067200000,
     firstPaymentDate = 1767571200000, rateTermMaturityDate = 1735689600000,
     compoundingFrequency = 1, paymentType = End\<rparr>"

definition ex0_schedule :: "PaymentRow list" where
  "ex0_schedule =
     [\<lparr>paymentNumber = 1, paymentDate = 1767571200000, beginningBalance = 1000,
       scheduledPayment = 900, principalPayment = - (51700 / 487),
       interestPayment = 490000 / 487, endingBalance = 538700 / 487,
       cumulativeInterest = 490000 / 487, daysBetweenPayments = 735\<rparr>,
      \<lparr>paymentNumber = 2, paymentDate = 1799107200000, beginningBalance = 538700 / 487,
       scheduledPayment = 1180291700 / 711507, principalPayment = 538700 / 487,
       interestPayment = 393251000 / 711507, endingBalance = 0,
       cumulativeInterest = 1109141000 / 711507, daysBetweenPayments = 365\<rparr>]"

definition ex0_summary :: LoanSummary where
  "ex0_summary =
     \<lparr>monthlyPayment = Some 900, totalInterest = 1109141000 / 711507,
      totalPayments = 1820648000 / 711507, rateTermInterest = 0, rateTermPrincipal = 0,
      numberOfPayments = 2\<rparr>"

text \<open>
  A loan of 10000 at 5 percent, compounded twice a year, paid 108 times a year over 13
  months. The input passes \<open>loanInputSchema\<close>; 13 / 12 * 108 is 117 exactly.
\<close>

definition exF :: LoanInput where
  "exF = \<lparr>loanAmount = 10000, annualInterestRate = 5, rateTermMonths = 12,
     amortizationMonths = 13, paymentsPerYear = 108, startDate = 1704067200000,
     firstPaymentDate = 1704326400000, rateTermMaturityDate = 1735689600000,
     compoundingFrequency = 2, paymentType = End\<rparr>"

section \<open>Properties of a schedule\<close>

text \<open>Each row begins with the balance the row before it ended with.\<close>

definition chained :: "PaymentRow list \<Rightarrow> bool" where
  "chained rows =
     (\<forall>k. Suc k < length rows \<longrightarrow> beginningBalance (rows ! Suc k) = endingBalance (rows ! k))"

text \<open>Payment dates do not decrease from one row to the next.\<close>

definition datesAscending :: "PaymentRow list \<Rightarrow> bool" where
  "datesAscending rows =
     (\<forall>k. Suc k < length rows \<longrightarrow> paymentDate (rows ! k) \<le> paymentDate (rows ! Suc k))"

text \<open>Every row but the last leaves a balance above one cent.\<close>

definition openBefore :: "PaymentRow list \<Rightarrow> bool" where
  "openBefore rows = (\<forall>k. Suc k < length rows \<longrightarrow> endingBalance (rows ! k) > 0.01)"

text \<open>What holds of one row when the fixed payment is \<open>p\<close>.\<close>

definition rowSound :: "real \<Rightarrow> PaymentRow \<Rightarrow> bool" where
  "rowSound p row =
     (0 \<le> beginningBalance row \<and> 0 \<le> interestPayment row \<and>
      (interestPayment row \<le> p \<longrightarrow>
         0 \<le> principalPayment row \<and> endingBalance row \<le> beginningBalance row) \<and>
      (principalPayment row < 0 \<longrightarrow>
         p < interestPayment row \<and> principalPayment row = p - interestPayment row))"

text \<open>
  The invariant of the payment loop before payment \<open>i\<close>, and what holds of the state
  the loop ends in.
\<close>

definition loopInv :: "LoanInput \<Rightarrow> int \<Rightarrow> real \<Rightarrow> int \<Rightarrow> int \<Rightarrow> LoopState \<Rightarrow> bool" where
  "loopInv input n p f i s =
     (1 \<le> i \<and> i \<le> n + 1 \<and> int (length (schedule s)) = i - 1 \<and>
      0 \<le> currentBalance s \<and>
      (schedule s = [] \<longrightarrow> previousPaymentDate s = startDate input) \<and>
      (schedule s \<noteq> [] \<longrightarrow>
         endingBalance (last (schedule s)) = currentBalance s \<and>
         paymentDate (last (schedule s)) = previousPaymentDate s \<and>
         adjustPaymentDate (firstPaymentDate input + (i - 2) * f * msPerDay) =
           Some (previousPaymentDate s) \<and>
         0.01 < currentBalance s) \<and>
      chained (schedule s) \<and> datesAscending (schedule s) \<and> openBefore (schedule s) \<and>
      (\<forall>row\<in>set (schedule s). rowSound p row))"

definition loopPost :: "int \<Rightarrow> real \<Rightarrow> LoopState \<Rightarrow> bool" where
  "loopPost n p s =
     (chained (schedule s) \<and> datesAscending (schedule s) \<and> openBefore (schedule s) \<and>
      (\<forall>row\<in>set (schedule s). rowSound p row) \<and>
      int (length (schedule s)) \<le> n \<and>
      (int (length (schedule s)) = n \<or>
       (schedule s \<noteq> [] \<and> endingBalance (last (schedule s)) \<le> 0.01)))"

section \<open>The calendar\<close>

lemma div_step: 
  assumes n: "(0::int) < n" 
  shows "(x + 1) div n = x div n + (if (x + 1) mod n = 0 then 1 else 0)"
proof -
  define a where "a = x div n"
  define r where "r = x mod n"
  have e1: "x = a * n + r" by (simp add: a_def r_def)
  have b: "0 \<le> r" "r < n" using n by (simp_all add: r_def)
  have d: "(x + 1) div n = a + (r + 1) div n"
    unfolding e1 using n by (simp add: add.assoc)
  have m: "(x + 1) mod n = (r + 1) mod n"
    unfolding e1 by (simp add: add.assoc)
  show ?thesis
  proof (cases "r + 1 = n")
    case True
    then show ?thesis using d m n by (simp add: a_def)
  next
    case False
    then have lt: "r + 1 < n" using b by linarith
    then have "(r + 1) div n = 0" "(r + 1) mod n = r + 1" using b by simp_all
    then show ?thesis using d m b by (simp add: a_def)
  qed
qed

lemma mod_shift: "(y - k * n) mod n = (y::int) mod n"
  by (metis mod_diff_right_eq mod_mult_self1_is_0 diff_zero mod_mod_trivial mult.commute)

lemma DayFromYear_step: "DayFromYear (y + 1) = DayFromYear y + (if InLeapYear y then 366 else 365)"
proof -
  have m4: "(y - 1968) mod 4 = y mod 4" using mod_shift [of y 492 4] by simp
  have m100: "(y - 1900) mod 100 = y mod 100" using mod_shift [of y 19 100] by simp
  have m400: "(y - 1600) mod 400 = y mod 400" using mod_shift [of y 4 400] by simp
  have a: "(y + 1 - 1969) div 4 = (y - 1969) div 4 + (if y mod 4 = 0 then 1 else 0)"
    using div_step [of 4 "y - 1969"] m4 by (simp add: algebra_simps)
  have b: "(y + 1 - 1901) div 100 = (y - 1901) div 100 + (if y mod 100 = 0 then 1 else 0)"
    using div_step [of 100 "y - 1901"] m100 by (simp add: algebra_simps)
  have c: "(y + 1 - 1601) div 400 = (y - 1601) div 400 + (if y mod 400 = 0 then 1 else 0)"
    using div_step [of 400 "y - 1601"] m400 by (simp add: algebra_simps)
  have d: "y mod 400 = 0 \<Longrightarrow> y mod 100 = 0"
    by (metis dvd_trans mod_0_imp_dvd dvd_imp_mod_0 dvd_def mult.commute numeral_times_numeral
        semiring_norm(12) semiring_norm(13) num.distinct dvd_triv_left)
  show ?thesis unfolding DayFromYear_def InLeapYear_def a b c by (auto dest: d)
qed

lemma DayFromYear_bounds:
  assumes p: "p = 146097 * y"
  shows "p - 287811596 \<le> 400 * DayFromYear y" and "400 * DayFromYear y \<le> p - 287810501"
proof -
  define a where "a = (y - 1969) div 4"
  define b where "b = (y - 1901) div 100"
  define c where "c = (y - 1601) div 400"
  define ra where "ra = (y - 1969) mod 4"
  define rb where "rb = (y - 1901) mod 100"
  define rc where "rc = (y - 1601) mod 400"
  have a: "y - 1969 = 4 * a + ra" by (simp add: a_def ra_def)
  have b: "y - 1901 = 100 * b + rb" by (simp add: b_def rb_def)
  have c: "y - 1601 = 400 * c + rc" by (simp add: c_def rc_def)
  have r: "0 \<le> ra" "ra < 4" "0 \<le> rb" "rb < 100" "0 \<le> rc" "rc < 400"
    by (simp_all add: ra_def rb_def rc_def)
  have D: "DayFromYear y = 365 * (y - 1970) + a - b + c"
    by (simp add: DayFromYear_def a_def b_def c_def)
  have "a * 4 = y - 1969 - ra" "b * 100 = y - 1901 - rb" "c * 400 = y - 1601 - rc"
    using a b c by simp_all
  then have "a * 400 = 100 * (y - 1969 - ra)" "b * 400 = 4 * (y - 1901 - rb)"
    "c * 400 = y - 1601 - rc" by simp_all
  then have E: "400 * DayFromYear y = p - 287810897 - 100 * ra + 4 * rb - rc"
    using D p by (simp add: algebra_simps)
  show "p - 287811596 \<le> 400 * DayFromYear y" using E r by linarith
  show "400 * DayFromYear y \<le> p - 287810501" using E r by linarith
qed

lemma YearFromDay_bounds: "DayFromYear (YearFromDay d) \<le> d \<and> d < DayFromYear (YearFromDay d + 1)"
proof -
  define q where "q = (400 * d) div 146097"
  define r where "r = (400 * d) mod 146097"
  have q: "400 * d = 146097 * q + r" by (simp add: q_def r_def)
  have r: "0 \<le> r" "r < 146097" by (simp_all add: r_def)
  have "146097 * q + 287664993 = 146097 * (1970 + q - 1)" by simp
  from DayFromYear_bounds(2) [OF this] have lo: "DayFromYear (1970 + q - 1) \<le> d"
    using q r by linarith
  have "146097 * q + 288103284 = 146097 * (1970 + q + 1 + 1)" by simp
  from DayFromYear_bounds(1) [OF this] have hi: "d < DayFromYear (1970 + q + 1 + 1)"
    using q r by linarith
  show ?thesis
    unfolding YearFromDay_def Let_def q_def [symmetric]
    using lo hi by auto
qed

lemma DayWithinYear_bounds:
  "0 \<le> DayWithinYear d" "DayWithinYear d < (if InLeapYear (YearFromDay d) then 366 else 365)"
  using YearFromDay_bounds [of d] DayFromYear_step [of "YearFromDay d"]
  by (auto simp: DayWithinYear_def split: if_splits)

lemma MonthFromDay_range: "0 \<le> MonthFromDay d \<and> MonthFromDay d \<le> 11"
  by (simp add: MonthFromDay_def Let_def)

lemma MakeDay_roundtrip: "MakeDay (YearFromDay d) (MonthFromDay d) (DateFromDay d) = d"
proof -
  have m: "MonthFromDay d div 12 = 0" "MonthFromDay d mod 12 = MonthFromDay d"
    using MonthFromDay_range [of d] by simp_all
  show ?thesis
    by (simp add: MakeDay_def Let_def m DateFromDay_def DayWithinYear_def)
qed

lemma Day_split: "t = Day t * msPerDay + TimeWithinDay t"
  by (simp add: Day_def TimeWithinDay_def)

lemma setDate_getDate: "setDate t (getDate t + n) = t + n * msPerDay"
proof -
  have "MakeDay (getFullYear t) (getMonth t) (getDate t + n) = Day t + n"
    using MakeDay_roundtrip [of "Day t"]
    by (simp add: MakeDay_def Let_def getFullYear_def getMonth_def getDate_def)
  then show ?thesis
    using Day_split [of t] by (simp add: setDate_def algebra_simps)
qed


lemma DayFromYear_mono: "y \<le> y' \<Longrightarrow> DayFromYear y \<le> DayFromYear y'"
proof (induction y' rule: int_ge_induct)
  case base
  show ?case by simp
next
  case (step i)
  then show ?case using DayFromYear_step [of i] by (simp split: if_splits)
qed

lemma YearFromDay_eqI:
  assumes "DayFromYear y \<le> d" "d < DayFromYear (y + 1)"
  shows "YearFromDay d = y"
proof (rule ccontr)
  assume ne: "YearFromDay d \<noteq> y"
  show False
  proof (cases "YearFromDay d < y")
    case True
    then have "DayFromYear (YearFromDay d + 1) \<le> DayFromYear y"
      by (intro DayFromYear_mono) simp
    then show False using YearFromDay_bounds [of d] assms by linarith
  next
    case False
    then have "DayFromYear (y + 1) \<le> DayFromYear (YearFromDay d)"
      using ne by (intro DayFromYear_mono) simp
    then show False using YearFromDay_bounds [of d] assms by linarith
  qed
qed

lemma same_date_same_Day:
  assumes "getFullYear h = getFullYear t" "getMonth h = getMonth t" "getDate h = getDate t"
  shows "Day h = Day t"
proof -
  have "Day h = MakeDay (getFullYear h) (getMonth h) (getDate h)"
    unfolding getFullYear_def getMonth_def getDate_def by (simp only: MakeDay_roundtrip)
  also have "\<dots> = MakeDay (getFullYear t) (getMonth t) (getDate t)"
    by (simp only: assms)
  also have "\<dots> = Day t"
    unfolding getFullYear_def getMonth_def getDate_def by (simp only: MakeDay_roundtrip)
  finally show ?thesis .
qed

lemma Day_shift: "Day (t + n * msPerDay) = Day t + n"
  by (simp add: Day_def msPerDay_def)

lemma weekday_run:
  fixes s a j w :: int
  assumes s: "s = a + (4 - a) mod 7" and j: "0 \<le> j" "j \<le> 4"
  shows "(s + 7 * w + j + 4) mod 7 = 1 + j"
proof -
  define q where "q = (4 - a) div 7"
  define r where "r = (4 - a) mod 7"
  have "4 - a = 7 * q + r" by (simp add: q_def r_def)
  then have "s + 7 * w + j + 4 = (1 + j) + 7 * (w - q + 1)"
    using s unfolding r_def [symmetric] by (simp add: algebra_simps)
  then have "(s + 7 * w + j + 4) mod 7 = (1 + j) mod 7" by (simp only: mod_mult_self2)
  then show ?thesis using j by simp
qed

lemma isCanadianHoliday_Day:
  assumes "isCanadianHoliday t"
  shows "Day t \<in> Day ` set (getCanadianHolidays (YearFromDay (Day t)))"
proof -
  from assms obtain h where h: "h \<in> set (getCanadianHolidays (getFullYear t))"
    and e: "getFullYear h = getFullYear t" "getMonth h = getMonth t" "getDate h = getDate t"
    unfolding isCanadianHoliday_def Let_def list_ex_iff by blast
  have "Day t = Day h" using same_date_same_Day [OF e] by simp
  then show ?thesis using h unfolding getFullYear_def by (rule image_eqI)
qed

lemma length_getCanadianHolidays: "length (getCanadianHolidays y) = 12"
  unfolding getCanadianHolidays_def Let_def by (simp only: length_Cons list.size)

lemma card_holidays: "card (Day ` set (getCanadianHolidays y)) \<le> 12"
proof -
  have "card (Day ` set (getCanadianHolidays y)) \<le> card (set (getCanadianHolidays y))"
    by (rule card_image_le) simp
  also have "\<dots> \<le> length (getCanadianHolidays y)" by (rule card_length)
  finally show ?thesis by (simp only: length_getCanadianHolidays)
qed

lemma isBusinessDay_Day: "Day t = Day t' \<Longrightarrow> isBusinessDay t = isBusinessDay t'"
  by (simp add: isBusinessDay_def isWeekend_def isCanadianHoliday_def getDay_def
      getFullYear_def getMonth_def getDate_def)

text \<open>Fifteen working weekdays within 25 days of one calendar year cannot all be holidays.\<close>

lemma business_day_in_year:
  assumes yr: "\<And>k. 0 \<le> k \<Longrightarrow> k \<le> 24 \<Longrightarrow> YearFromDay (Day t + k) = y"
  shows "\<exists>k. 0 \<le> k \<and> k \<le> 24 \<and> isBusinessDay (t + k * msPerDay)"
proof (rule ccontr)
  assume no: "\<not> ?thesis"
  define a where "a = Day t"
  define s where "s = a + (4 - a) mod 7"
  define S where "S = {s..s + 4} \<union> {s + 7..s + 11} \<union> {s + 14..s + 18}"
  define H where "H = Day ` set (getCanadianHolidays y)"
  have sa: "a \<le> s" "s \<le> a + 6"
    using pos_mod_bound [of 7 "4 - a"] pos_mod_sign [of 7 "4 - a"] by (simp_all add: s_def)
  have cardS: "card S = 15"
    unfolding S_def by (subst card_Un_disjoint; (subst card_Un_disjoint)?; auto)
  have wk: "(d + 4) mod 7 \<in> {1..5}" if "d \<in> S" for d
  proof -
    from that have "d \<in> {s..s + 4} \<or> d \<in> {s + 7..s + 11} \<or> d \<in> {s + 14..s + 18}"
      by (simp add: S_def)
    then have "\<exists>w j. 0 \<le> j \<and> j \<le> 4 \<and> d = s + 7 * w + j"
    proof (elim disjE)
      assume "d \<in> {s..s + 4}"
      then have "0 \<le> d - s \<and> d - s \<le> 4 \<and> d = s + 7 * 0 + (d - s)" by simp
      then show ?thesis by blast
    next
      assume "d \<in> {s + 7..s + 11}"
      then have "0 \<le> d - s - 7 \<and> d - s - 7 \<le> 4 \<and> d = s + 7 * 1 + (d - s - 7)" by simp
      then show ?thesis by blast
    next
      assume "d \<in> {s + 14..s + 18}"
      then have "0 \<le> d - s - 14 \<and> d - s - 14 \<le> 4 \<and> d = s + 7 * 2 + (d - s - 14)" by simp
      then show ?thesis by blast
    qed
    then obtain w j where j: "0 \<le> j" "j \<le> 4" and d: "d = s + 7 * w + j" by blast
    have "(d + 4) mod 7 = 1 + j" using weekday_run [OF s_def j, of w] by (simp add: d)
    then show ?thesis using j by simp
  qed
  have "S \<subseteq> H"
  proof
    fix d assume d: "d \<in> S"
    define k where "k = d - a"
    have k: "0 \<le> k" "k \<le> 24" using d sa unfolding S_def k_def by auto
    have Dk: "Day (t + k * msPerDay) = d" by (simp add: Day_shift k_def a_def)
    from no k have nb: "\<not> isBusinessDay (t + k * msPerDay)" by blast
    have "\<not> isWeekend (t + k * msPerDay)"
      using wk [OF d] by (auto simp: isWeekend_def getDay_def Dk)
    with nb have "isCanadianHoliday (t + k * msPerDay)" by (simp add: isBusinessDay_def)
    from isCanadianHoliday_Day [OF this] show "d \<in> H"
      unfolding Dk H_def using yr [OF k] by (simp add: k_def a_def)
  qed
  moreover have "finite H" by (simp add: H_def)
  ultimately have "card S \<le> card H" by (rule card_mono [rotated])
  then show False using cardS card_holidays [of y] by (simp add: H_def)
qed

lemma YearFromDay_greatest: "DayFromYear y \<le> d \<Longrightarrow> y \<le> YearFromDay d"
proof (rule ccontr)
  assume a: "DayFromYear y \<le> d" and "\<not> y \<le> YearFromDay d"
  then have "DayFromYear (YearFromDay d + 1) \<le> DayFromYear y"
    by (intro DayFromYear_mono) simp
  then show False using YearFromDay_bounds [of d] a by linarith
qed

lemma YearFromDay_mono: "d \<le> d' \<Longrightarrow> YearFromDay d \<le> YearFromDay d'"
  using YearFromDay_bounds [of d] by (intro YearFromDay_greatest) linarith

lemma business_day_exists:
  "\<exists>k. 0 \<le> k \<and> k \<le> 49 \<and> isBusinessDay (t + k * msPerDay)"
proof (cases "YearFromDay (Day t + 24) = YearFromDay (Day t)")
  case True
  have "YearFromDay (Day t + k) = YearFromDay (Day t)" if "0 \<le> k" "k \<le> 24" for k
    using YearFromDay_mono [of "Day t" "Day t + k"] YearFromDay_mono [of "Day t + k" "Day t + 24"]
      that True by simp
  from business_day_in_year [of t "YearFromDay (Day t)", OF this]
  obtain k where "0 \<le> k" "k \<le> 24" "isBusinessDay (t + k * msPerDay)" by blast
  then have "0 \<le> k \<and> k \<le> 49 \<and> isBusinessDay (t + k * msPerDay)" by simp
  then show ?thesis by blast
next
  case False
  define y where "y = YearFromDay (Day t + 24)"
  have lo: "DayFromYear y \<le> Day t + 24"
    using YearFromDay_bounds [of "Day t + 24"] by (simp add: y_def)
  have "\<not> DayFromYear y \<le> Day t"
  proof
    assume "DayFromYear y \<le> Day t"
    then have "y \<le> YearFromDay (Day t)" by (rule YearFromDay_greatest)
    moreover have "YearFromDay (Day t) \<le> y"
      unfolding y_def by (rule YearFromDay_mono) simp
    ultimately show False using False by (simp add: y_def)
  qed
  then have hi: "Day t < DayFromYear y" by simp
  have nxt: "DayFromYear y + 365 \<le> DayFromYear (y + 1)"
    using DayFromYear_step [of y] by (simp split: if_splits)
  have "YearFromDay (Day (t + 25 * msPerDay) + k) = y" if "0 \<le> k" "k \<le> 24" for k
    using that lo hi nxt by (intro YearFromDay_eqI) (simp_all add: Day_shift)
  from business_day_in_year [of "t + 25 * msPerDay" y, OF this]
  obtain k where k: "0 \<le> k" "k \<le> 24" "isBusinessDay (t + 25 * msPerDay + k * msPerDay)"
    by blast
  have "t + 25 * msPerDay + k * msPerDay = t + (25 + k) * msPerDay" by (simp add: algebra_simps)
  with k have "0 \<le> 25 + k \<and> 25 + k \<le> 49 \<and> isBusinessDay (t + (25 + k) * msPerDay)" by simp
  then show ?thesis by blast
qed

text \<open>The scan of \<open>getNextBusinessDay\<close> stops at the first business day on its way.\<close>

lemma loop_finds:
  assumes "isBusinessDay (t + int n * msPerDay)"
  shows "\<exists>m\<le>n. getNextBusinessDay_loop t = Some (t + int m * msPerDay) \<and>
           isBusinessDay (t + int m * msPerDay) \<and>
           (\<forall>j<m. \<not> isBusinessDay (t + int j * msPerDay))"
  using assms
proof (induction n arbitrary: t)
  case 0
  then have "getNextBusinessDay_loop t = Some t"
    by (subst getNextBusinessDay_loop.simps) simp
  with 0 show ?case by simp
next
  case (Suc n)
  show ?case
  proof (cases "isBusinessDay t")
    case True
    then have "getNextBusinessDay_loop t = Some t"
      by (subst getNextBusinessDay_loop.simps) simp
    with True have "getNextBusinessDay_loop t = Some (t + int 0 * msPerDay) \<and>
           isBusinessDay (t + int 0 * msPerDay) \<and>
           (\<forall>j<0. \<not> isBusinessDay (t + int j * msPerDay))" by simp
    then show ?thesis by blast
  next
    case False
    have e: "t + msPerDay + int k * msPerDay = t + int (Suc k) * msPerDay" for k
      by (simp add: algebra_simps)
    from Suc.prems have "isBusinessDay (t + msPerDay + int n * msPerDay)"
      by (simp only: e)
    from Suc.IH [OF this] obtain m where m: "m \<le> n"
      "getNextBusinessDay_loop (t + msPerDay) = Some (t + msPerDay + int m * msPerDay)"
      "isBusinessDay (t + msPerDay + int m * msPerDay)"
      "\<forall>j<m. \<not> isBusinessDay (t + msPerDay + int j * msPerDay)" by blast
    have s: "setDate t (getDate t + 1) = t + msPerDay"
      using setDate_getDate [of t 1] by simp
    have 1: "getNextBusinessDay_loop t = Some (t + int (Suc m) * msPerDay)"
      using False m(2) by (subst getNextBusinessDay_loop.simps) (simp only: s e if_True not_False_eq_True)
    have 2: "\<forall>j<Suc m. \<not> isBusinessDay (t + int j * msPerDay)"
    proof (intro allI impI)
      fix j assume "j < Suc m"
      show "\<not> isBusinessDay (t + int j * msPerDay)"
      proof (cases j)
        case 0 then show ?thesis using False by simp
      next
        case (Suc j')
        then have "j' < m" using \<open>j < Suc m\<close> by simp
        then have "\<not> isBusinessDay (t + msPerDay + int j' * msPerDay)" using m(4) by blast
        then show ?thesis unfolding Suc by (simp only: e not_False_eq_True)
      qed
    qed
    have "Suc m \<le> Suc n" using m(1) by simp
    moreover note 1 
    moreover have "isBusinessDay (t + int (Suc m) * msPerDay)" using m(3) by (simp only: e)
    moreover note 2
    ultimately show ?thesis by blast
  qed
qed

section \<open>The business day scan\<close>

lemma adjustPaymentDate_finds:
  "\<exists>m. adjustPaymentDate t = Some (t + int m * msPerDay) \<and>
       isBusinessDay (t + int m * msPerDay) \<and>
       (\<forall>j<m. \<not> isBusinessDay (t + int j * msPerDay)) \<and>
       (isBusinessDay t \<longleftrightarrow> m = 0)"
proof (cases "isBusinessDay t")
  case True
  then have "adjustPaymentDate t = Some (t + int 0 * msPerDay) \<and>
       isBusinessDay (t + int 0 * msPerDay) \<and>
       (\<forall>j<0. \<not> isBusinessDay (t + int j * msPerDay)) \<and> (isBusinessDay t \<longleftrightarrow> (0::nat) = 0)"
    by (simp add: adjustPaymentDate_def)
  then show ?thesis by blast
next
  case False
  have e: "t + msPerDay + int k * msPerDay = t + int (Suc k) * msPerDay" for k
    by (simp add: algebra_simps)
  obtain k where k: "0 \<le> k" "isBusinessDay (t + msPerDay + k * msPerDay)"
    using business_day_exists [of "t + msPerDay"] by blast
  then have "isBusinessDay (t + msPerDay + int (nat k) * msPerDay)" by simp
  from loop_finds [OF this] obtain m where
    m: "getNextBusinessDay_loop (t + msPerDay) = Some (t + msPerDay + int m * msPerDay)"
      "isBusinessDay (t + msPerDay + int m * msPerDay)"
      "\<forall>j<m. \<not> isBusinessDay (t + msPerDay + int j * msPerDay)" by blast
  have s: "setDate t (getDate t + 1) = t + msPerDay"
    using setDate_getDate [of t 1] by simp
  have 1: "adjustPaymentDate t = Some (t + int (Suc m) * msPerDay)"
    using False m(1) by (simp only: adjustPaymentDate_def getNextBusinessDay_def s e if_False)
  have 2: "isBusinessDay (t + int (Suc m) * msPerDay)" using m(2) by (simp only: e)
  have 3: "\<forall>j<Suc m. \<not> isBusinessDay (t + int j * msPerDay)"
  proof (intro allI impI)
    fix j assume "j < Suc m"
    show "\<not> isBusinessDay (t + int j * msPerDay)"
    proof (cases j)
      case 0 then show ?thesis using False by simp
    next
      case (Suc j')
      then have "j' < m" using \<open>j < Suc m\<close> by simp
      then have "\<not> isBusinessDay (t + msPerDay + int j' * msPerDay)" using m(3) by blast
      then show ?thesis unfolding Suc by (simp only: e not_False_eq_True)
    qed
  qed
  have "isBusinessDay t \<longleftrightarrow> Suc m = 0" using False by simp
  with 1 2 3 show ?thesis by blast
qed

lemma adjustPaymentDate_ge: "adjustPaymentDate t = Some a \<Longrightarrow> t \<le> a"
  using adjustPaymentDate_finds [of t] by (auto simp: msPerDay_def)

lemma adjustPaymentDate_mono:
  assumes a: "adjustPaymentDate t = Some a"
    and b: "adjustPaymentDate (t + k * msPerDay) = Some b" and k: "0 \<le> k"
  shows "a \<le> b"
proof -
  obtain m where m: "a = t + int m * msPerDay" "\<forall>j<m. \<not> isBusinessDay (t + int j * msPerDay)"
    using adjustPaymentDate_finds [of t] a by auto
  obtain m' where m': "b = t + k * msPerDay + int m' * msPerDay"
    "isBusinessDay (t + k * msPerDay + int m' * msPerDay)"
    using adjustPaymentDate_finds [of "t + k * msPerDay"] b by auto
  have "t + k * msPerDay + int m' * msPerDay = t + int (nat k + m') * msPerDay"
    using k by (simp add: algebra_simps)
  with m'(2) have "isBusinessDay (t + int (nat k + m') * msPerDay)" by simp
  with m(2) have "\<not> nat k + m' < m" by blast
  then have "int m \<le> k + int m'" using k by linarith
  then have "int m * msPerDay \<le> (k + int m') * msPerDay"
    by (intro mult_right_mono) (simp_all add: msPerDay_def)
  then show ?thesis unfolding m(1) m'(1) by (simp add: algebra_simps)
qed

section \<open>The payment loop\<close>

lemma paymentStep_Some: "\<exists>s'. paymentStep input n p f i s = Some s'"
proof -
  obtain a where "adjustPaymentDate (setDate (firstPaymentDate input)
            (getDate (firstPaymentDate input) + (i - 1) * f)) = Some a"
    using adjustPaymentDate_finds by blast
  then show ?thesis by (simp add: paymentStep_def Let_def)
qed

lemma amortizationLoop_Some: "\<exists>r. amortizationLoop input n p f i s = Some r"
proof (induction input n p f i s rule: amortizationLoop.induct)
  case (1 input n p f i s)
  show ?case
  proof (cases "i \<le> n")
    case False
    then show ?thesis by simp
  next
    case True
    obtain s' where s': "paymentStep input n p f i s = Some s'"
      using paymentStep_Some by blast
    show ?thesis
    proof (cases "currentBalance s' \<le> 0.01")
      case b: True
      then show ?thesis using True s' by simp
    next
      case b: False
      from "1.IH" [OF True s' b] obtain r where
        "amortizationLoop input n p f (i + 1) s' = Some r" by blast
      then show ?thesis using True s' b by simp
    qed
  qed
qed

lemma amortizationLoop_rule:
  assumes "amortizationLoop input n p f i s = Some r"
    and "P i s"
    and "\<And>i s s'. i \<le> n \<Longrightarrow> P i s \<Longrightarrow> paymentStep input n p f i s = Some s' \<Longrightarrow>
                 (if currentBalance s' \<le> 0.01 then Q s' else P (i + 1) s')"
    and "\<And>i s. n < i \<Longrightarrow> P i s \<Longrightarrow> Q s"
  shows "Q r"
  using assms
proof (induction input n p f i s rule: amortizationLoop.induct)
  case (1 input n p f i s)
  note step = "1.prems"(3) and fin = "1.prems"(4)
  show ?case
  proof (cases "i \<le> n")
    case False
    then have "r = s" using "1.prems"(1) by simp
    moreover from False have "n < i" by simp
    ultimately show ?thesis using fin [OF _ "1.prems"(2)] by simp
  next
    case True
    then obtain s' where s': "paymentStep input n p f i s = Some s'"
      using "1.prems"(1) by (cases "paymentStep input n p f i s") simp_all
    note st = step [OF True "1.prems"(2) s']
    show ?thesis
    proof (cases "currentBalance s' \<le> 0.01")
      case b: True
      then have "r = s'" using "1.prems"(1) True s' by simp
      then show ?thesis using st b by simp
    next
      case b: False
      then have l: "amortizationLoop input n p f (i + 1) s' = Some r"
        using "1.prems"(1) True s' by simp
      have P': "P (i + 1) s'" using st b by simp
      show ?thesis
      proof (rule "1.IH" [OF True s' b l P'])
        show "if currentBalance s' \<le> 0.01 then Q s' else P (i + 1) s'"
          if "i \<le> n" "P i s" "paymentStep input n p f i s = Some s'" for i s s'
          using that by (rule step)
        show "Q s" if "n < i" "P i s" for i s
          using that by (rule fin)
      qed
    qed
  qed
qed

section \<open>Easter\<close>

lemma js_rem_nonneg: "0 \<le> a \<Longrightarrow> 0 < b \<Longrightarrow> js_rem a b = a mod b"
  by (cases "a = 0") (simp_all add: js_rem_def)

text \<open>The quantities of the Easter computation and what ties them together.\<close>

lemma easter_facts:
  fixes Y a b c d e f g h i k l m :: int
  assumes Y: "0 \<le> Y"
    and a_def: "a = Y mod 19" and b_def: "b = Y div 100" and c_def: "c = Y mod 100"
    and d_def: "d = b div 4" and e_def: "e = b mod 4"
    and f_def: "f = (b + 8) div 25"
    and g_def: "g = (b - f + 1) div 3"
    and h_def: "h = (19 * a + b - d - g + 15) mod 30"
    and i_def: "i = c div 4" and k_def: "k = c mod 4"
    and l_def: "l = (32 + 2 * e + 2 * i - h - k) mod 7"
    and m_def: "m = (a + 11 * h + 22 * l) div 451"
  shows "0 \<le> b" "0 \<le> c" "0 \<le> 19 * a + b - d - g + 15" "0 \<le> 32 + 2 * e + 2 * i - h - k"
    "0 \<le> h + l - 7 * m" "h + l - 7 * m \<le> 34"
proof -
  show b0: "0 \<le> b" using Y by (simp add: b_def)
  show "0 \<le> c" by (simp add: c_def)
  have a: "0 \<le> a" "a \<le> 18" by (simp_all add: a_def)
  have e: "0 \<le> e" "e \<le> 3" by (simp_all add: e_def)
  have k: "0 \<le> k" "k \<le> 3" by (simp_all add: k_def)
  have c: "0 \<le> c" "c \<le> 99" by (simp_all add: c_def)
  have i: "0 \<le> i" using c by (simp add: i_def)
  have h: "0 \<le> h" "h \<le> 29" by (simp_all add: h_def)
  have l: "0 \<le> l" "l \<le> 6" by (simp_all add: l_def)
  have bd: "b = 4 * d + e" by (simp add: d_def e_def)
  have d0: "0 \<le> d" using b0 by (simp add: d_def)
  have f0: "0 \<le> f" using b0 by (simp add: f_def)
  have g3: "3 * g \<le> b - f + 1" unfolding g_def
    using div_mult_mod_eq [of "b - f + 1" 3] pos_mod_sign [of 3 "b - f + 1"] by linarith
  show "0 \<le> 19 * a + b - d - g + 15" using a bd e d0 f0 g3 by linarith
  show "0 \<le> 32 + 2 * e + 2 * i - h - k" using e i h k by linarith
  have m451: "451 * m \<le> a + 11 * h + 22 * l" "a + 11 * h + 22 * l < 451 * m + 451"
    unfolding m_def
    using div_mult_mod_eq [of "a + 11 * h + 22 * l" 451] pos_mod_sign [of 451 "a + 11 * h + 22 * l"]
      pos_mod_bound [of 451 "a + 11 * h + 22 * l"] by linarith+
  have m01: "m = 0 \<or> m = 1" using m451 a h l by linarith
  show "0 \<le> h + l - 7 * m" using m01 m451 a h l by linarith
  show "h + l - 7 * m \<le> 34" using m01 m451 a h l by linarith
qed

lemma div_shift: "n \<noteq> 0 \<Longrightarrow> (y - k * n) div n = y div n - (k::int)"
  using div_mult_self1 [of n y "- k"] by (simp add: algebra_simps)

lemma Day_newDate: "Day (x * msPerDay) = x"
  by (simp add: Day_def msPerDay_def)

lemma easter_sunday_arith:
  fixes Y a b c d e f g h i k l m :: int
  assumes Y: "0 \<le> Y"
    and a_def: "a = Y mod 19" and b_def: "b = Y div 100" and c_def: "c = Y mod 100"
    and d_def: "d = b div 4" and e_def: "e = b mod 4"
    and f_def: "f = (b + 8) div 25"
    and g_def: "g = (b - f + 1) div 3"
    and h_def: "h = (19 * a + b - d - g + 15) mod 30"
    and i_def: "i = c div 4" and k_def: "k = c mod 4"
    and l_def: "l = (32 + 2 * e + 2 * i - h - k) mod 7"
    and m_def: "m = (a + 11 * h + 22 * l) div 451"
  shows "(DayFromYear Y + (if InLeapYear Y then 1 else 0) + (h + l - 7 * m + 114) - 30) mod 7 = 0"
proof -
  define ql where "ql = (32 + 2 * e + 2 * i - h - k) div 7"
  have l: "l = 32 + 2 * e + 2 * i - h - k - 7 * ql"
    unfolding l_def ql_def using div_mult_mod_eq [of "32 + 2 * e + 2 * i - h - k" 7] by linarith
  have Yb: "Y = 100 * b + c" by (simp add: b_def c_def)
  have bd: "b = 4 * d + e" by (simp add: d_def e_def)
  have ci: "c = 4 * i + k" by (simp add: i_def k_def)
  have e: "0 \<le> e" "e < 4" by (simp_all add: e_def)
  have k: "0 \<le> k" "k < 4" by (simp_all add: k_def)
  have c: "0 \<le> c" "c < 100" by (simp_all add: c_def)
  have Yflat: "Y = 400 * d + 100 * e + 4 * i + k" using Yb bd ci by linarith
  have Y4: "Y div 4 = 100 * d + 25 * e + i"
    by (rule int_div_pos_eq [of _ _ _ k]) (use Yflat k in simp_all)
  have Y100: "Y div 100 = 4 * d + e" using bd by (simp add: b_def)
  have Y400: "Y div 400 = d"
    by (rule int_div_pos_eq [of _ _ _ "100 * e + c"]) (use Yb bd e c in simp_all)
  have s4: "(Y + 1 - 1969) div 4 = Y div 4 - 492" using div_shift [of 4 Y 492] by simp
  have s100: "(Y + 1 - 1901) div 100 = Y div 100 - 19" using div_shift [of 100 Y 19] by simp
  have s400: "(Y + 1 - 1601) div 400 = Y div 400 - 4" using div_shift [of 400 Y 4] by simp
  have D1: "DayFromYear (Y + 1) = 365 * Y - 718685 + (Y div 4 - 492) - (Y div 100 - 19) + (Y div 400 - 4)"
    unfolding DayFromYear_def s4 s100 s400 by simp
  have D0: "DayFromYear Y + (if InLeapYear Y then 1 else 0) = DayFromYear (Y + 1) - 365"
    using DayFromYear_step [of Y] by simp
  have "DayFromYear Y + (if InLeapYear Y then 1 else 0) + (h + l - 7 * m + 114) - 30
      = 146097 * d + 36526 * e + 1463 * i + 364 * k - 7 * ql - 7 * m - 719411"
    unfolding D0 D1 Y4 Y100 Y400 using l Yflat by linarith
  also have "\<dots> = 7 * (20871 * d + 5218 * e + 209 * i + 52 * k - ql - m - 102773)" by simp
  finally have E: "DayFromYear Y + (if InLeapYear Y then 1 else 0) + (h + l - 7 * m + 114) - 30
      = 7 * (20871 * d + 5218 * e + 209 * i + 52 * k - ql - m - 102773)" .
  show ?thesis unfolding E by (rule mod_mult_self1_is_0)
qed

lemma MakeDay_March:
  assumes "1 \<le> dd" "dd \<le> 31"
  shows "YearFromDay (MakeDay y 2 dd) = y" "MonthFromDay (MakeDay y 2 dd) = 2"
    "DateFromDay (MakeDay y 2 dd) = dd"
proof -
  define L :: int where "L = (if InLeapYear y then 1 else 0)"
  have z: "MakeDay y 2 dd = DayFromYear y + (59 + L + dd - 1)"
    by (simp add: MakeDay_def monthStart_def L_def)
  have nxt: "DayFromYear (y + 1) = DayFromYear y + 365 + L"
    using DayFromYear_step [of y] by (simp add: L_def)
  show yr: "YearFromDay (MakeDay y 2 dd) = y"
    unfolding z using assms nxt by (intro YearFromDay_eqI) (simp_all add: L_def)
  have w: "DayWithinYear (MakeDay y 2 dd) = 59 + L + dd - 1"
    unfolding DayWithinYear_def yr by (simp add: z)
  show mo: "MonthFromDay (MakeDay y 2 dd) = 2"
    unfolding MonthFromDay_def w yr using assms by (simp add: L_def)
  show "DateFromDay (MakeDay y 2 dd) = dd"
    unfolding DateFromDay_def w yr mo by (simp add: monthStart_def L_def)
qed

lemma MakeDay_April:
  assumes "1 \<le> dd" "dd \<le> 30"
  shows "YearFromDay (MakeDay y 3 dd) = y" "MonthFromDay (MakeDay y 3 dd) = 3"
    "DateFromDay (MakeDay y 3 dd) = dd"
proof -
  define L :: int where "L = (if InLeapYear y then 1 else 0)"
  have z: "MakeDay y 3 dd = DayFromYear y + (90 + L + dd - 1)"
    by (simp add: MakeDay_def monthStart_def L_def)
  have nxt: "DayFromYear (y + 1) = DayFromYear y + 365 + L"
    using DayFromYear_step [of y] by (simp add: L_def)
  show yr: "YearFromDay (MakeDay y 3 dd) = y"
    unfolding z using assms nxt by (intro YearFromDay_eqI) (simp_all add: L_def)
  have w: "DayWithinYear (MakeDay y 3 dd) = 90 + L + dd - 1"
    unfolding DayWithinYear_def yr by (simp add: z)
  show mo: "MonthFromDay (MakeDay y 3 dd) = 3"
    unfolding MonthFromDay_def w yr using assms by (simp add: L_def)
  show "DateFromDay (MakeDay y 3 dd) = dd"
    unfolding DateFromDay_def w yr mo by (simp add: monthStart_def L_def)
qed

lemma easter_summary:
  fixes Y :: int
  assumes Y: "0 \<le> Y"
  shows "\<exists>n. 114 \<le> n \<and> n \<le> 148 \<and>
     spec_easter Y = (n div 31, n mod 31 + 1) \<and>
     calculateEaster Y = newDate Y (n div 31 - 1) (n mod 31 + 1) \<and>
     (DayFromYear Y + (if InLeapYear Y then 1 else 0) + n - 30) mod 7 = 0"
proof -
  define a where "a = Y mod 19"
  define b where "b = Y div 100"
  define c where "c = Y mod 100"
  define d where "d = b div 4"
  define e where "e = b mod 4"
  define f where "f = (b + 8) div 25"
  define g where "g = (b - f + 1) div 3"
  define h where "h = (19 * a + b - d - g + 15) mod 30"
  define i where "i = c div 4"
  define k where "k = c mod 4"
  define l where "l = (32 + 2 * e + 2 * i - h - k) mod 7"
  define m where "m = (a + 11 * h + 22 * l) div 451"
  define n where "n = h + l - 7 * m + 114"
  note defs = a_def b_def c_def d_def e_def f_def g_def h_def i_def k_def l_def m_def
  note F = easter_facts [OF Y defs]
  have n: "114 \<le> n" "n \<le> 148" using F(5,6) by (simp_all add: n_def)
  have sp: "spec_easter Y = (n div 31, n mod 31 + 1)"
    by (simp only: spec_easter_def Let_def defs n_def)
  have r1: "js_rem Y 19 = a" unfolding a_def by (rule js_rem_nonneg [OF Y]) simp
  have r2: "js_rem Y 100 = c" unfolding c_def by (rule js_rem_nonneg [OF Y]) simp
  have r3: "js_rem b 4 = e" unfolding e_def by (rule js_rem_nonneg [OF F(1)]) simp
  have r4: "js_rem (19 * a + b - d - g + 15) 30 = h"
    unfolding h_def by (rule js_rem_nonneg [OF F(3)]) simp
  have r5: "js_rem c 4 = k" unfolding k_def by (rule js_rem_nonneg [OF F(2)]) simp
  have r6: "js_rem (32 + 2 * e + 2 * i - h - k) 7 = l"
    unfolding l_def by (rule js_rem_nonneg [OF F(4)]) simp
  have r7: "js_rem n 31 = n mod 31" by (rule js_rem_nonneg) (use n in simp_all)
  have ce: "calculateEaster Y = newDate Y (n div 31 - 1) (n mod 31 + 1)"
    by (simp only: calculateEaster_def Let_def r1 r2 b_def [symmetric] d_def [symmetric] r3
        f_def [symmetric] g_def [symmetric] r4 i_def [symmetric] r5 r6 m_def [symmetric]
        n_def [symmetric] r7)
  have su: "(DayFromYear Y + (if InLeapYear Y then 1 else 0) + n - 30) mod 7 = 0"
    unfolding n_def by (rule easter_sunday_arith [OF Y defs])
  show ?thesis by (intro exI [of _ n] conjI) (fact n sp ce su)+
qed

lemma easter_fields:
  assumes y: "100 \<le> y" and dd: "1 \<le> dd" "dd \<le> 30 \<or> (mo = 2 \<and> dd \<le> 31)" and mo: "mo = 2 \<or> mo = 3"
  shows "getFullYear (newDate y mo dd) = y" "getMonth (newDate y mo dd) = mo"
    "getDate (newDate y mo dd) = dd"
    "getDay (newDate y mo dd) = (MakeDay y mo dd + 4) mod 7"
proof -
  have nd: "newDate y mo dd = MakeDay y mo dd * msPerDay" using y by (simp add: newDate_def)
  show "getFullYear (newDate y mo dd) = y"
    unfolding nd getFullYear_def Day_newDate using mo dd MakeDay_March(1) MakeDay_April(1) by auto
  show "getMonth (newDate y mo dd) = mo"
    unfolding nd getMonth_def Day_newDate using mo dd MakeDay_March(2) MakeDay_April(2) by auto
  show "getDate (newDate y mo dd) = dd"
    unfolding nd getDate_def Day_newDate using mo dd MakeDay_March(3) MakeDay_April(3) by auto
  show "getDay (newDate y mo dd) = (MakeDay y mo dd + 4) mod 7"
    unfolding nd getDay_def Day_newDate by simp
qed

lemma easter_2024: "spec_easter 2024 = (3, 31)" by code_simp
lemma easter_2025: "spec_easter 2025 = (4, 20)" by code_simp

lemma calculateEaster_general:
  assumes "1583 \<le> year"
  shows "calculateEaster year = newDate year (fst (spec_easter year) - 1) (snd (spec_easter year)) \<and>
     getFullYear (calculateEaster year) = year \<and>
     getMonth (calculateEaster year) + 1 = fst (spec_easter year) \<and>
     getDate (calculateEaster year) = snd (spec_easter year) \<and>
     getDay (calculateEaster year) = 0 \<and>
     ((fst (spec_easter year) = 3 \<and> 22 \<le> snd (spec_easter year) \<and> snd (spec_easter year) \<le> 31) \<or>
      (fst (spec_easter year) = 4 \<and> 1 \<le> snd (spec_easter year) \<and> snd (spec_easter year) \<le> 25))"
proof -
  from assms have Y: "0 \<le> year" "100 \<le> year" by simp_all
  obtain n where nn: "114 \<le> n \<and> n \<le> 148 \<and>
     spec_easter year = (n div 31, n mod 31 + 1) \<and>
     calculateEaster year = newDate year (n div 31 - 1) (n mod 31 + 1) \<and>
     (DayFromYear year + (if InLeapYear year then 1 else 0) + n - 30) mod 7 = 0"
    using easter_summary [OF Y(1)] by (rule exE)
  note n = nn [THEN conjunct1] nn [THEN conjunct2, THEN conjunct1]
  note sp = nn [THEN conjunct2, THEN conjunct2, THEN conjunct1]
  note ce = nn [THEN conjunct2, THEN conjunct2, THEN conjunct2, THEN conjunct1]
  note su = nn [THEN conjunct2, THEN conjunct2, THEN conjunct2, THEN conjunct2]
  show ?thesis
  proof (cases "n \<le> 123")
    case True
    have dm: "n div 31 = 3" "n mod 31 = n - 93"
      using int_div_pos_eq [of n 31 3 "n - 93"] int_mod_pos_eq [of n 31 3 "n - 93"] n True
      by simp_all
    have sp': "spec_easter year = (3, n - 92)" using sp dm by simp
    have ce': "calculateEaster year = newDate year 2 (n - 92)" using ce dm by simp
    have r: "1 \<le> n - 92" "n - 92 \<le> 30 \<or> ((2::int) = 2 \<and> n - 92 \<le> 31)" "(2::int) = 2 \<or> (2::int) = 3"
      using n True by simp_all
    note fl = easter_fields [OF Y(2) r]
    have "MakeDay year 2 (n - 92) + 4 = DayFromYear year + (if InLeapYear year then 1 else 0) + n - 30"
      by (simp add: MakeDay_def monthStart_def)
    then have "getDay (calculateEaster year) = 0" unfolding ce' fl(4) by (simp only: su)
    then show ?thesis unfolding sp' ce' using fl(1,2,3) n True by simp
  next
    case False
    have dm: "n div 31 = 4" "n mod 31 = n - 124"
      using int_div_pos_eq [of n 31 4 "n - 124"] int_mod_pos_eq [of n 31 4 "n - 124"] n False
      by simp_all
    have sp': "spec_easter year = (4, n - 123)" using sp dm by simp
    have ce': "calculateEaster year = newDate year 3 (n - 123)" using ce dm by simp
    have r: "1 \<le> n - 123" "n - 123 \<le> 30 \<or> ((3::int) = 2 \<and> n - 123 \<le> 31)" "(3::int) = 2 \<or> (3::int) = 3"
      using n False by simp_all
    note fl = easter_fields [OF Y(2) r]
    have "MakeDay year 3 (n - 123) + 4 = DayFromYear year + (if InLeapYear year then 1 else 0) + n - 30"
      by (simp add: MakeDay_def monthStart_def)
    then have "getDay (calculateEaster year) = 0" unfolding ce' fl(4) by (simp only: su)
    then show ?thesis unfolding sp' ce' using fl(1,2,3) n False by simp
  qed
qed

section \<open>The first Monday of a month\<close>

text \<open>
  The first-Monday expression of \<open>getCanadianHolidays\<close>: unless the 1st of the month is a
  Monday, the day \<open>8 - getDay()\<close> is a Sunday.
\<close>

lemma firstMonday_weekday:
  "getDay (if getDay (newDate y m 1) = 1 then newDate y m 1
           else newDate y m (8 - getDay (newDate y m 1))) =
   (if getDay (newDate y m 1) = 1 then 1 else 0)"
proof -
  define y' where "y' = (if 0 \<le> y \<and> y \<le> 99 then 1900 + y else y)"
  define D where "D = MakeDay y' m 1"
  define g where "g = (D + 4) mod 7"
  have nd: "newDate y m d = (D + (d - 1)) * msPerDay" for d
    by (simp add: newDate_def D_def y'_def MakeDay_def Let_def)
  have gd: "getDay (newDate y m d) = (D + (d - 1) + 4) mod 7" for d
    unfolding nd getDay_def Day_newDate by (rule refl)
  have g1: "getDay (newDate y m 1) = g" unfolding gd g_def by simp
  define q where "q = (D + 4) div 7"
  have "D + 4 = 7 * q + g" by (simp add: g_def q_def)
  then have "D + (8 - g - 1) + 4 = 7 * (q + 1)" by (simp add: algebra_simps)
  then have "(D + (8 - g - 1) + 4) mod 7 = 0" by (simp only: mod_mult_self1_is_0)
  then have g8: "getDay (newDate y m (8 - g)) = 0" unfolding gd .
  show ?thesis unfolding g1 using g1 g8 by simp
qed

lemma labourDay_weekday:
  "getDay (getCanadianHolidays year ! 7) = (if getDay (newDate year 8 1) = 1 then 1 else 0)"
proof -
  have "getCanadianHolidays year ! 7 =
      (if getDay (newDate year 8 1) = 1 then newDate year 8 1
       else newDate year 8 (8 - getDay (newDate year 8 1)))"
    unfolding getCanadianHolidays_def Let_def
    by (simp split del: if_split)
  then show ?thesis by (simp only: firstMonday_weekday)
qed

section \<open>The payment amount\<close>

lemma effectiveRate_pos:
  assumes "0 < annualRate" "0 < perYear" "0 < compounding"
  shows "0 < spec_effectiveRate annualRate compounding perYear"
proof -
  have "1 < 1 + annualRate / 100 / compounding" using assms by simp
  moreover have "0 < compounding / perYear" using assms by simp
  ultimately have "(1 + annualRate / 100 / compounding) powr 0
      < (1 + annualRate / 100 / compounding) powr (compounding / perYear)"
    by (intro powr_less_mono)
  then show ?thesis using assms by (simp add: spec_effectiveRate_def del: powr_less_cancel_iff)
qed

lemma calculatePaymentAmount_annuity:
  assumes r: "0 < annualRate" "0 < perYear" "0 < compounding" and n: "0 < n"
  shows "calculatePaymentAmount P annualRate (of_int n) perYear compounding =
     Some (spec_payment P (spec_effectiveRate annualRate compounding perYear) (nat n))"
proof -
  define e where "e = spec_effectiveRate annualRate compounding perYear"
  have e: "0 < e" unfolding e_def using r by (rule effectiveRate_pos)
  have q: "js_div annualRate (100 * compounding) = Some (annualRate / (100 * compounding))"
    using r by (simp add: js_div_def)
  have e': "e = (1 + annualRate / (100 * compounding)) powr (compounding / perYear) - 1"
    by (simp add: e_def spec_effectiveRate_def)
  have x: "js_div compounding perYear = Some (compounding / perYear)"
    using r by (simp add: js_div_def)
  have p: "Math_pow (1 + annualRate / (100 * compounding)) (compounding / perYear) = Some (1 + e)"
    using r by (simp add: Math_pow_def e' add_pos_pos)
  have "(1 + e) powr real_of_int n = (1 + e) powr real (nat n)" using n by simp
  also have "\<dots> = (1 + e) ^ nat n" using e by (subst powr_realpow) simp_all
  finally have pw: "(1 + e) powr real_of_int n = (1 + e) ^ nat n" .
  have g: "Math_pow (1 + e) (of_int n) = Some ((1 + e) ^ nat n)"
    using e n by (simp add: Math_pow_def pw)
  have "1 < (1 + e) ^ nat n" using e n by (intro one_less_power) simp_all
  then have d: "js_div (P * (e * (1 + e) ^ nat n)) ((1 + e) ^ nat n - 1) =
      Some (spec_payment P e (nat n))"
    by (simp add: js_div_def spec_payment_def)
  show ?thesis
    unfolding calculatePaymentAmount_def e_def [symmetric]
    using e by (simp add: q x p g d)
qed

text \<open>One more period lowers the annuity payment.\<close>

lemma spec_payment_decreasing:
  assumes P: "0 < P" and r: "0 < r" and n: "0 < n"
  shows "spec_payment P r (Suc n) < spec_payment P r n"
proof -
  define a where "a = (1 + r) ^ n"
  define b where "b = (1 + r) ^ Suc n"
  have a1: "1 < a" unfolding a_def using r n by (intro one_less_power) simp_all
  have ab: "a < b" unfolding a_def b_def using r a1 [unfolded a_def] by simp
  have b1: "1 < b" using a1 ab by simp
  have "b * (a - 1) < a * (b - 1)" using ab by (simp add: algebra_simps)
  then have "b / (b - 1) < a / (a - 1)" using a1 b1 by (simp add: field_simps)
  then have "P * r * (b / (b - 1)) < P * r * (a / (a - 1))"
    using P r by (intro mult_strict_left_mono) simp_all
  then show ?thesis unfolding spec_payment_def a_def [symmetric] b_def [symmetric] by simp
qed

lemma paymentStep_cong:
  assumes "annualInterestRate a = annualInterestRate b" "firstPaymentDate a = firstPaymentDate b"
    "rateTermMaturityDate a = rateTermMaturityDate b"
  shows "paymentStep a n p f i s = paymentStep b n p f i s"
  unfolding paymentStep_def assms by (rule refl)

lemma amortizationLoop_cong:
  assumes "annualInterestRate a = annualInterestRate b" "firstPaymentDate a = firstPaymentDate b"
    "rateTermMaturityDate a = rateTermMaturityDate b"
  shows "amortizationLoop a n p f i s = amortizationLoop b n p f i s"
  using assms
proof (induction a n p f i s rule: amortizationLoop.induct)
  case (1 a n p f i s)
  note st = paymentStep_cong [OF "1.prems", of n p f i s]
  show ?case
  proof (cases "i \<le> n")
    case False
    then show ?thesis by simp
  next
    case True
    show ?thesis
    proof (cases "paymentStep a n p f i s")
      case None
      then show ?thesis using True st by simp
    next
      case (Some s')
      show ?thesis
      proof (cases "currentBalance s' \<le> 0.01")
        case b: True
        then show ?thesis using True Some st by simp
      next
        case b: False
        from "1.IH" [OF True Some b "1.prems"] show ?thesis using True Some st b by simp
      qed
    qed
  qed
qed

section \<open>One step of the payment loop\<close>

lemma paymentStep_SomeE:
  assumes "paymentStep input n p f i s = Some s'"
  obtains a r where
    "adjustPaymentDate (firstPaymentDate input + (i - 1) * f * msPerDay) = Some a"
    "schedule s' = schedule s @ [r]"
    "paymentNumber r = i"
    "paymentDate r = a"
    "beginningBalance r = currentBalance s"
    "interestPayment r = currentBalance s * (annualInterestRate input / 100 / 365.25) *
        real_of_int (getDaysBetween (previousPaymentDate s) a)"
    "principalPayment r = (if i = n \<or> p - interestPayment r > currentBalance s
        then currentBalance s else p - interestPayment r)"
    "endingBalance r = max 0 (currentBalance s - principalPayment r)"
    "scheduledPayment r = principalPayment r + interestPayment r"
    "cumulativeInterest r = cumulativeInterestAcc s + interestPayment r"
    "daysBetweenPayments r = getDaysBetween (previousPaymentDate s) a"
    "currentBalance s' = endingBalance r"
    "cumulativeInterestAcc s' = cumulativeInterest r"
    "previousPaymentDate s' = a"
proof -
  obtain a where a: "adjustPaymentDate (firstPaymentDate input + (i - 1) * f * msPerDay) = Some a"
    using adjustPaymentDate_finds by blast
  define days where "days = getDaysBetween (previousPaymentDate s) a"
  define interest where
    "interest = currentBalance s * (annualInterestRate input / 100 / 365.25) * real_of_int days"
  define principal where "principal =
     (if i = n \<or> p - interest > currentBalance s then currentBalance s else p - interest)"
  define r where "r = \<lparr>paymentNumber = i, paymentDate = a,
     beginningBalance = currentBalance s, scheduledPayment = principal + interest,
     principalPayment = principal, interestPayment = interest,
     endingBalance = max 0 (currentBalance s - principal),
     cumulativeInterest = cumulativeInterestAcc s + interest,
     daysBetweenPayments = days\<rparr>"
  have "Some s' = Some \<lparr>schedule = schedule s @ [r],
     currentBalance = max 0 (currentBalance s - principal),
     cumulativeInterestAcc = cumulativeInterestAcc s + interest,
     previousPaymentDate = a,
     rateTermInterestAcc = (if a \<le> rateTermMaturityDate input
        then rateTermInterestAcc s + interest else rateTermInterestAcc s),
     rateTermPrincipalAcc = (if a \<le> rateTermMaturityDate input
        then rateTermPrincipalAcc s + principal else rateTermPrincipalAcc s)\<rparr>"
    unfolding assms [symmetric] paymentStep_def setDate_getDate a Let_def option.case
      r_def principal_def interest_def days_def
    by (rule refl)
  then have s': "schedule s' = schedule s @ [r]"
    "currentBalance s' = max 0 (currentBalance s - principal)"
    "cumulativeInterestAcc s' = cumulativeInterestAcc s + interest"
    "previousPaymentDate s' = a"
    by simp_all
  have r: "paymentNumber r = i" "paymentDate r = a" "beginningBalance r = currentBalance s"
    "scheduledPayment r = principal + interest" "principalPayment r = principal"
    "interestPayment r = interest" "endingBalance r = max 0 (currentBalance s - principal)"
    "cumulativeInterest r = cumulativeInterestAcc s + interest" "daysBetweenPayments r = days"
    by (simp_all add: r_def)
  show ?thesis
  proof (rule that [of a r])
    show "adjustPaymentDate (firstPaymentDate input + (i - 1) * f * msPerDay) = Some a"
      by (rule a)
  qed (simp_all only: r s' principal_def interest_def days_def)
qed

section \<open>Double rounding\<close>

lemma binaryExponent_eq:
  assumes lo: "2 powi e \<le> \<bar>x\<bar>" and hi: "\<bar>x\<bar> < 2 powi (e + 1)" and e: "- 1022 \<le> e"
  shows "binaryExponent x = e"
proof -
  have pos: "0 < \<bar>x\<bar>" using lo zero_less_power_int [of "2::real" e] by linarith
  have p1: "(2::real) powr real_of_int e = 2 powi e" by (rule powr_real_of_int') simp_all
  have p2: "(2::real) powr real_of_int (e + 1) = 2 powi (e + 1)"
    by (rule powr_real_of_int') simp_all
  have "real_of_int e \<le> log 2 \<bar>x\<bar>"
    using lo pos by (subst le_log_iff) (simp_all add: p1)
  moreover have "\<bar>x\<bar> < 2 powr real_of_int (e + 1)" using hi by (simp only: p2)
  then have "log 2 \<bar>x\<bar> < real_of_int (e + 1)"
    using pos by (subst log_less_iff) simp_all
  ultimately have "\<lfloor>log 2 \<bar>x\<bar>\<rfloor> = e" by (intro floor_unique) simp_all
  then show ?thesis using e by (simp add: binaryExponent_def)
qed

lemma roundTiesToEven_nonneg: "0 \<le> m \<Longrightarrow> 0 \<le> roundTiesToEven m"
  by (simp add: roundTiesToEven_def Let_def)

lemma toDouble_nonneg: "0 \<le> x \<Longrightarrow> 0 \<le> toDouble x"
  unfolding toDouble_def Let_def
  by (auto intro!: mult_nonneg_nonneg roundTiesToEven_nonneg divide_nonneg_pos
      simp: less_imp_le)

lemma toDouble_2: "toDouble 2 = 2"
proof -
  have e: "binaryExponent 2 = 1" by (rule binaryExponent_eq) simp_all
  show ?thesis by (simp add: toDouble_def e roundTiesToEven_def Let_def)
qed

lemma toDouble_13_12: "toDouble (13 / 12) = 4878899596318037 / 4503599627370496"
proof -
  have e: "binaryExponent (13 / 12) = 0" by (rule binaryExponent_eq) simp_all
  have f: "\<lfloor>(58546795155816448 :: real) / 12\<rfloor> = 4878899596318037" by simp
  show ?thesis by (simp add: toDouble_def e roundTiesToEven_def Let_def f)
qed

lemma toDouble_13_12_108:
  "toDouble (131730289100586999 / 1125899906842624) = 8233143068786687 / 70368744177664"
proof -
  have e: "binaryExponent (131730289100586999 / 1125899906842624) = 6"
    by (rule binaryExponent_eq) simp_all
  show ?thesis by (simp add: toDouble_def e roundTiesToEven_def Let_def)
qed

lemma totalPaymentCount_nonneg:
  assumes "0 \<le> amortizationMonths input" "0 \<le> paymentsPerYear input"
  shows "0 \<le> totalPaymentCount input"
proof -
  have "0 \<le> toDouble (amortizationMonths input / 12)"
    using assms(1) by (intro toDouble_nonneg) simp
  then have "0 \<le> toDouble (amortizationMonths input / 12) * paymentsPerYear input"
    using assms(2) by (rule mult_nonneg_nonneg)
  then have "0 \<le> toDouble (toDouble (amortizationMonths input / 12) * paymentsPerYear input)"
    by (rule toDouble_nonneg)
  then show ?thesis by (simp add: totalPaymentCount_def)
qed

lemma ex0_count: "totalPaymentCount ex0 = 2"
  by (simp add: totalPaymentCount_def ex0_def toDouble_2)

lemma exF_count: "totalPaymentCount exF = 116"
  by (simp add: totalPaymentCount_def exF_def toDouble_13_12 toDouble_13_12_108)

section \<open>The worked example, evaluated\<close>

lemma ex0_valid: "loanInputSchema ex0"
  by (simp add: loanInputSchema_def ex0_def)

lemma ex0_payment: "calculatePaymentAmount 1000 50 2 1 1 = Some 900"
  by (simp add: calculatePaymentAmount_def js_div_def Math_pow_def power2_eq_square)

lemma ex0_adjust:
  "adjustPaymentDate 1767571200000 = Some 1767571200000"
  "adjustPaymentDate 1799107200000 = Some 1799107200000"
  by code_simp+

lemma ex0_step1:
  "paymentStep ex0 2 900 365 1
     \<lparr>schedule = [], currentBalance = 1000, cumulativeInterestAcc = 0,
      previousPaymentDate = 1704067200000, rateTermInterestAcc = 0, rateTermPrincipalAcc = 0\<rparr> =
   Some \<lparr>schedule = [ex0_schedule ! 0], currentBalance = 538700 / 487,
      cumulativeInterestAcc = 490000 / 487,
      previousPaymentDate = 1767571200000, rateTermInterestAcc = 0, rateTermPrincipalAcc = 0\<rparr>"
  unfolding paymentStep_def setDate_getDate
  by (simp add: ex0_def ex0_adjust getDaysBetween_def getTime_def
      ex0_schedule_def Let_def msPerDay_def)

lemma ex0_step2:
  "paymentStep ex0 2 900 365 2
     \<lparr>schedule = [ex0_schedule ! 0], currentBalance = 538700 / 487,
      cumulativeInterestAcc = 490000 / 487,
      previousPaymentDate = 1767571200000, rateTermInterestAcc = 0, rateTermPrincipalAcc = 0\<rparr> =
   Some \<lparr>schedule = ex0_schedule, currentBalance = 0,
      cumulativeInterestAcc = 1109141000 / 711507,
      previousPaymentDate = 1799107200000, rateTermInterestAcc = 0, rateTermPrincipalAcc = 0\<rparr>"
  unfolding paymentStep_def setDate_getDate
  by (simp add: ex0_def ex0_adjust getDaysBetween_def getTime_def
      ex0_schedule_def Let_def msPerDay_def)

lemma ex0_result:
  "calculateAmortizationSchedule ex0 = Inr (ex0_schedule, ex0_summary)"
proof -
  have n: "totalPaymentCount ex0 = 2" by (rule ex0_count)
  have f: "map_option Math_round (js_div 365.25 (paymentsPerYear ex0)) = Some 365"
    by (simp add: ex0_def js_div_def Math_round_def)
  have p: "calculatePaymentAmount (loanAmount ex0) (annualInterestRate ex0) (of_int 2)
      (paymentsPerYear ex0) (compoundingFrequency ex0) = Some 900"
    using ex0_payment by (simp add: ex0_def)
  have s0: "loanAmount ex0 = 1000" "startDate ex0 = 1704067200000" by (simp_all add: ex0_def)
  have l: "amortizationLoop ex0 2 900 365 1
     \<lparr>schedule = [], currentBalance = 1000, cumulativeInterestAcc = 0,
      previousPaymentDate = 1704067200000, rateTermInterestAcc = 0, rateTermPrincipalAcc = 0\<rparr> =
    Some \<lparr>schedule = ex0_schedule, currentBalance = 0,
      cumulativeInterestAcc = 1109141000 / 711507,
      previousPaymentDate = 1799107200000, rateTermInterestAcc = 0, rateTermPrincipalAcc = 0\<rparr>"
    by (simp add: ex0_step1 ex0_step2)
  show ?thesis
    unfolding calculateAmortizationSchedule_def Let_def n p f
    unfolding s0
    by (simp add: l summarize_def ex0_summary_def ex0_schedule_def del: amortizationLoop.simps)
qed

section \<open>Invariants of the schedule\<close>

lemma successive_snoc:
  "(\<forall>k. Suc k < length (xs @ [x]) \<longrightarrow> R ((xs @ [x]) ! k) ((xs @ [x]) ! Suc k)) \<longleftrightarrow>
   (\<forall>k. Suc k < length xs \<longrightarrow> R (xs ! k) (xs ! Suc k)) \<and> (xs \<noteq> [] \<longrightarrow> R (last xs) x)"
proof (intro iffI conjI allI impI)
  fix k
  assume a: "\<forall>k. Suc k < length (xs @ [x]) \<longrightarrow> R ((xs @ [x]) ! k) ((xs @ [x]) ! Suc k)"
    and k: "Suc k < length xs"
  from a k have "R ((xs @ [x]) ! k) ((xs @ [x]) ! Suc k)" by simp
  then show "R (xs ! k) (xs ! Suc k)" using k by (simp add: nth_append)
next
  assume a: "\<forall>k. Suc k < length (xs @ [x]) \<longrightarrow> R ((xs @ [x]) ! k) ((xs @ [x]) ! Suc k)"
    and ne: "xs \<noteq> []"
  then obtain j where j: "length xs = Suc j" by (cases xs) auto
  from a j have "R ((xs @ [x]) ! j) ((xs @ [x]) ! Suc j)" by simp
  then show "R (last xs) x" using j ne by (simp add: nth_append last_conv_nth)
next
  fix k
  assume a: "(\<forall>k. Suc k < length xs \<longrightarrow> R (xs ! k) (xs ! Suc k)) \<and> (xs \<noteq> [] \<longrightarrow> R (last xs) x)"
    and k: "Suc k < length (xs @ [x])"
  show "R ((xs @ [x]) ! k) ((xs @ [x]) ! Suc k)"
  proof (cases "Suc k < length xs")
    case True
    then show ?thesis using a by (simp add: nth_append)
  next
    case False
    then have e: "length xs = Suc k" using k by simp
    then have ne: "xs \<noteq> []" by auto
    then have "last xs = xs ! k" using e by (simp add: last_conv_nth)
    then show ?thesis using a e ne by (simp add: nth_append)
  qed
qed

lemma chained_snoc:
  "chained (xs @ [x]) \<longleftrightarrow>
     chained xs \<and> (xs \<noteq> [] \<longrightarrow> beginningBalance x = endingBalance (last xs))"
  unfolding chained_def
  using successive_snoc [of xs x "\<lambda>a b. beginningBalance b = endingBalance a"] by simp

lemma datesAscending_snoc:
  "datesAscending (xs @ [x]) \<longleftrightarrow>
     datesAscending xs \<and> (xs \<noteq> [] \<longrightarrow> paymentDate (last xs) \<le> paymentDate x)"
  unfolding datesAscending_def
  using successive_snoc [of xs x "\<lambda>a b. paymentDate a \<le> paymentDate b"] by simp

lemma openBefore_snoc:
  "openBefore (xs @ [x]) \<longleftrightarrow> openBefore xs \<and> (xs \<noteq> [] \<longrightarrow> endingBalance (last xs) > 0.01)"
  unfolding openBefore_def
  using successive_snoc [of xs x "\<lambda>a b. endingBalance a > 0.01"] by simp

lemma getDaysBetween_nonneg: "s \<le> e \<Longrightarrow> 0 \<le> getDaysBetween s e"
  by (simp add: getDaysBetween_def getTime_def Let_def)

lemma foldl_scheduledPayment:
  "foldl (\<lambda>sum row. sum + scheduledPayment row) a rows = a + sum_list (map scheduledPayment rows)"
  by (induction rows arbitrary: a) simp_all

lemma loopInv_step:
  assumes rate: "0 < annualInterestRate input"
    and dates: "startDate input \<le> firstPaymentDate input"
    and f: "0 \<le> f" and i: "i \<le> n"
    and inv: "loopInv input n p f i s"
    and st: "paymentStep input n p f i s = Some s'"
  shows "if currentBalance s' \<le> 0.01 then loopPost n p s' else loopInv input n p f (i + 1) s'"
proof -
  from st obtain a r where
    a: "adjustPaymentDate (firstPaymentDate input + (i - 1) * f * msPerDay) = Some a"
    and sch: "schedule s' = schedule s @ [r]"
    and rd: "paymentDate r = a"
    and rb: "beginningBalance r = currentBalance s"
    and ri: "interestPayment r = currentBalance s * (annualInterestRate input / 100 / 365.25) *
        real_of_int (getDaysBetween (previousPaymentDate s) a)"
    and rp: "principalPayment r = (if i = n \<or> p - interestPayment r > currentBalance s
        then currentBalance s else p - interestPayment r)"
    and re: "endingBalance r = max 0 (currentBalance s - principalPayment r)"
    and cb: "currentBalance s' = endingBalance r"
    and pd: "previousPaymentDate s' = a"
    by (rule paymentStep_SomeE)
  from inv have i1: "1 \<le> i" and len: "int (length (schedule s)) = i - 1"
    and b0: "0 \<le> currentBalance s"
    and emp: "schedule s = [] \<Longrightarrow> previousPaymentDate s = startDate input"
    and ne: "schedule s \<noteq> [] \<Longrightarrow> endingBalance (last (schedule s)) = currentBalance s"
      "schedule s \<noteq> [] \<Longrightarrow> paymentDate (last (schedule s)) = previousPaymentDate s"
      "schedule s \<noteq> [] \<Longrightarrow>
         adjustPaymentDate (firstPaymentDate input + (i - 2) * f * msPerDay) =
           Some (previousPaymentDate s)"
      "schedule s \<noteq> [] \<Longrightarrow> 0.01 < currentBalance s"
    and ch: "chained (schedule s)" and da: "datesAscending (schedule s)"
    and ob: "openBefore (schedule s)" and rs: "\<forall>row\<in>set (schedule s). rowSound p row"
    unfolding loopInv_def by simp_all
  have prev: "previousPaymentDate s \<le> a"
  proof (cases "schedule s = []")
    case True
    then have "i = 1" using len by simp
    then have "adjustPaymentDate (firstPaymentDate input) = Some a" using a by simp
    then have "firstPaymentDate input \<le> a" by (rule adjustPaymentDate_ge)
    then show ?thesis using emp [OF True] dates by simp
  next
    case False
    have "firstPaymentDate input + (i - 2) * f * msPerDay + f * msPerDay =
        firstPaymentDate input + (i - 1) * f * msPerDay"
      by (simp add: algebra_simps)
    then have "adjustPaymentDate (firstPaymentDate input + (i - 2) * f * msPerDay + f * msPerDay)
        = Some a" using a by (simp only:)
    from adjustPaymentDate_mono [OF ne(3) [OF False] this f] show ?thesis .
  qed
  have days: "0 \<le> real_of_int (getDaysBetween (previousPaymentDate s) a)"
    using getDaysBetween_nonneg [OF prev] by simp
  have int0: "0 \<le> interestPayment r"
    unfolding ri using b0 rate days by (intro mult_nonneg_nonneg) simp_all
  have sound: "rowSound p r"
    unfolding rowSound_def using rb re rp b0 int0 by (auto split: if_splits)
  have e0: "0 \<le> endingBalance r" by (simp add: re)
  have ch': "chained (schedule s')"
    unfolding sch chained_snoc using ch ne(1) rb by simp
  have da': "datesAscending (schedule s')"
    unfolding sch datesAscending_snoc using da ne(2) rd prev by simp
  have ob': "openBefore (schedule s')"
    unfolding sch openBefore_snoc using ob ne(1,4) by simp
  have rs': "\<forall>row\<in>set (schedule s'). rowSound p row"
    unfolding sch using rs sound by simp
  have len': "int (length (schedule s')) = i" unfolding sch using len by simp
  have last': "last (schedule s') = r" "schedule s' \<noteq> []" unfolding sch by simp_all
  show ?thesis
  proof (cases "currentBalance s' \<le> 0.01")
    case True
    have "loopPost n p s'"
      unfolding loopPost_def using ch' da' ob' rs' len' last' i True cb by simp
    then show ?thesis using True by simp
  next
    case False
    have "adjustPaymentDate (firstPaymentDate input + (i + 1 - 2) * f * msPerDay) =
        Some (previousPaymentDate s')"
      using a pd by (simp add: algebra_simps)
    then have "loopInv input n p f (i + 1) s'"
      unfolding loopInv_def using ch' da' ob' rs' len' last' i i1 False cb pd rd e0 by simp
    then show ?thesis using False by simp
  qed
qed

lemma valid_loop:
  assumes rate: "0 < annualInterestRate input"
    and dates: "startDate input \<le> firstPaymentDate input"
    and amt: "0 \<le> loanAmount input"
    and f: "0 \<le> f" and n: "0 \<le> n"
    and res: "amortizationLoop input n p f 1
       \<lparr>schedule = [], currentBalance = loanAmount input, cumulativeInterestAcc = 0,
        previousPaymentDate = startDate input, rateTermInterestAcc = 0,
        rateTermPrincipalAcc = 0\<rparr> = Some r"
  shows "loopPost n p r"
proof (rule amortizationLoop_rule [OF res, where P = "loopInv input n p f" and Q = "loopPost n p"])
  show "loopInv input n p f 1
       \<lparr>schedule = [], currentBalance = loanAmount input, cumulativeInterestAcc = 0,
        previousPaymentDate = startDate input, rateTermInterestAcc = 0,
        rateTermPrincipalAcc = 0\<rparr>"
    using amt n by (simp add: loopInv_def chained_def datesAscending_def openBefore_def)
next
  fix i s s'
  assume "i \<le> n" "loopInv input n p f i s" "paymentStep input n p f i s = Some s'"
  then show "if currentBalance s' \<le> 0.01 then loopPost n p s' else loopInv input n p f (i + 1) s'"
    by (rule loopInv_step [OF rate dates f])
next
  fix i s
  assume "n < i" "loopInv input n p f i s"
  then show "loopPost n p s"
    unfolding loopInv_def loopPost_def by auto
qed

section \<open>The engine on valid input\<close>

lemma frequency_nonneg:
  assumes "0 < perYear"
  shows "map_option Math_round (js_div 365.25 perYear) = Some (Math_round (365.25 / perYear))"
    and "0 \<le> Math_round (365.25 / perYear)"
proof -
  show "map_option Math_round (js_div 365.25 perYear) = Some (Math_round (365.25 / perYear))"
    using assms by (simp add: js_div_def)
  have "0 \<le> 365.25 / perYear + 1 / 2" using assms by simp
  then show "0 \<le> Math_round (365.25 / perYear)" unfolding Math_round_def by simp
qed

text \<open>What the engine returns when the payment and the frequency are finite.\<close>

lemma engine_runs:
  assumes n: "1 \<le> totalPaymentCount input"
    and p: "calculatePaymentAmount (loanAmount input) (annualInterestRate input)
      (of_int (totalPaymentCount input))
      (paymentsPerYear input) (compoundingFrequency input) = Some p"
    and f: "map_option Math_round (js_div 365.25 (paymentsPerYear input)) = Some f"
  shows "\<exists>r. amortizationLoop input (totalPaymentCount input) p f 1
       \<lparr>schedule = [], currentBalance = loanAmount input, cumulativeInterestAcc = 0,
        previousPaymentDate = startDate input, rateTermInterestAcc = 0,
        rateTermPrincipalAcc = 0\<rparr> = Some r \<and>
     calculateAmortizationSchedule input = Inr (schedule r, summarize (Some p) r)"
proof -
  obtain r where r: "amortizationLoop input (totalPaymentCount input) p f 1
       \<lparr>schedule = [], currentBalance = loanAmount input, cumulativeInterestAcc = 0,
        previousPaymentDate = startDate input, rateTermInterestAcc = 0,
        rateTermPrincipalAcc = 0\<rparr> = Some r"
    using amortizationLoop_Some by blast
  have "calculateAmortizationSchedule input = Inr (schedule r, summarize (Some p) r)"
    unfolding calculateAmortizationSchedule_def Let_def p f
    using n r by (simp del: amortizationLoop.simps)
  with r show ?thesis by blast
qed

lemma engine_empty:
  assumes n: "totalPaymentCount input < 1"
  shows "\<exists>summary. calculateAmortizationSchedule input = Inr ([], summary)"
  unfolding calculateAmortizationSchedule_def Let_def using n by simp

lemma valid_run:
  assumes v: "loanInputSchema input"
  shows "\<exists>rows summary. calculateAmortizationSchedule input = Inr (rows, summary) \<and>
     chained rows \<and> datesAscending rows \<and> openBefore rows \<and>
     (\<forall>row\<in>set rows. \<exists>p. monthlyPayment summary = Some p \<and> rowSound p row) \<and>
     int (length rows) \<le> totalPaymentCount input \<and>
     (int (length rows) = totalPaymentCount input \<or>
      (rows \<noteq> [] \<and> endingBalance (last rows) \<le> 0.01))"
proof -
  define N where "N = totalPaymentCount input"
  from v have rate: "0 < annualInterestRate input" and ppy: "0 < paymentsPerYear input"
    and cf: "0 < compoundingFrequency input" and amt: "0 \<le> loanAmount input"
    and am: "0 \<le> amortizationMonths input"
    and dates: "startDate input \<le> firstPaymentDate input"
    unfolding loanInputSchema_def by simp_all
  have N0: "0 \<le> N" unfolding N_def using am ppy by (intro totalPaymentCount_nonneg) simp_all
  show ?thesis
  proof (cases "N < 1")
    case True
    then have z: "N = 0" using N0 by simp
    from True obtain summary where "calculateAmortizationSchedule input = Inr ([], summary)"
      unfolding N_def using engine_empty by blast
    then have "calculateAmortizationSchedule input = Inr ([], summary) \<and>
       chained [] \<and> datesAscending [] \<and> openBefore [] \<and>
       (\<forall>row\<in>set []. \<exists>p. monthlyPayment summary = Some p \<and> rowSound p row) \<and>
       int (length ([] :: PaymentRow list)) \<le> N \<and>
       (int (length ([] :: PaymentRow list)) = N \<or>
        (([] :: PaymentRow list) \<noteq> [] \<and> endingBalance (last []) \<le> 0.01))"
      using z by (simp add: chained_def datesAscending_def openBefore_def)
    then show ?thesis unfolding N_def by blast
  next
    case False
    then have N1: "1 \<le> N" "0 < N" by simp_all
    define p where "p = spec_payment (loanAmount input)
      (spec_effectiveRate (annualInterestRate input) (compoundingFrequency input)
         (paymentsPerYear input)) (nat N)"
    define f where "f = Math_round (365.25 / paymentsPerYear input)"
    have pe: "calculatePaymentAmount (loanAmount input) (annualInterestRate input)
      (of_int N) (paymentsPerYear input) (compoundingFrequency input) = Some p"
      unfolding p_def by (rule calculatePaymentAmount_annuity [OF rate ppy cf N1(2)])
    have fe: "map_option Math_round (js_div 365.25 (paymentsPerYear input)) = Some f"
      and f0: "0 \<le> f"
      unfolding f_def using frequency_nonneg [OF ppy] by simp_all
    from engine_runs [OF N1(1) [unfolded N_def] pe [unfolded N_def] fe]
    obtain r where r: "amortizationLoop input N p f 1
       \<lparr>schedule = [], currentBalance = loanAmount input, cumulativeInterestAcc = 0,
        previousPaymentDate = startDate input, rateTermInterestAcc = 0,
        rateTermPrincipalAcc = 0\<rparr> = Some r"
      and c: "calculateAmortizationSchedule input = Inr (schedule r, summarize (Some p) r)"
      unfolding N_def by blast
    from valid_loop [OF rate dates amt f0 N0 r] have post: "loopPost N p r" .
    have m: "monthlyPayment (summarize (Some p) r) = Some p" by (simp add: summarize_def)
    from post have "chained (schedule r) \<and> datesAscending (schedule r) \<and>
       openBefore (schedule r) \<and>
       (\<forall>row\<in>set (schedule r). \<exists>q. monthlyPayment (summarize (Some p) r) = Some q \<and> rowSound q row) \<and>
       int (length (schedule r)) \<le> N \<and>
       (int (length (schedule r)) = N \<or>
        (schedule r \<noteq> [] \<and> endingBalance (last (schedule r)) \<le> 0.01))"
      unfolding loopPost_def m by simp
    with c show ?thesis unfolding N_def by blast
  qed
qed

lemma loop_rows:
  assumes res: "amortizationLoop input n p f i s = Some r"
    and start: "\<forall>row\<in>set (schedule s).
       principalPayment row = p - interestPayment row \<or> principalPayment row = beginningBalance row"
  shows "\<forall>row\<in>set (schedule r).
       principalPayment row = p - interestPayment row \<or> principalPayment row = beginningBalance row"
proof (rule amortizationLoop_rule [OF res, where
      P = "\<lambda>i s. \<forall>row\<in>set (schedule s).
        principalPayment row = p - interestPayment row \<or> principalPayment row = beginningBalance row"])
  show "\<forall>row\<in>set (schedule s).
       principalPayment row = p - interestPayment row \<or> principalPayment row = beginningBalance row"
    by (rule start)
next
  fix i s s'
  assume inv: "\<forall>row\<in>set (schedule s).
       principalPayment row = p - interestPayment row \<or> principalPayment row = beginningBalance row"
    and st: "paymentStep input n p f i s = Some s'"
  from st obtain a x where sch: "schedule s' = schedule s @ [x]"
    and xb: "beginningBalance x = currentBalance s"
    and xp: "principalPayment x = (if i = n \<or> p - interestPayment x > currentBalance s
        then currentBalance s else p - interestPayment x)"
    by (rule paymentStep_SomeE)
  have "principalPayment x = p - interestPayment x \<or> principalPayment x = beginningBalance x"
    using xb xp by (simp split: if_splits)
  then have "\<forall>row\<in>set (schedule s').
       principalPayment row = p - interestPayment row \<or> principalPayment row = beginningBalance row"
    unfolding sch using inv by simp
  then show "if currentBalance s' \<le> 0.01
    then \<forall>row\<in>set (schedule s').
       principalPayment row = p - interestPayment row \<or> principalPayment row = beginningBalance row
    else \<forall>row\<in>set (schedule s').
       principalPayment row = p - interestPayment row \<or> principalPayment row = beginningBalance row"
    by simp
qed

lemma loop_cumulative:
  assumes res: "amortizationLoop input n p f i s = Some r"
    and start: "schedule s \<noteq> [] \<longrightarrow> cumulativeInterest (last (schedule s)) = cumulativeInterestAcc s"
  shows "schedule r \<noteq> [] \<longrightarrow> cumulativeInterest (last (schedule r)) = cumulativeInterestAcc r"
proof (rule amortizationLoop_rule [OF res, where
      P = "\<lambda>i s. schedule s \<noteq> [] \<longrightarrow>
             cumulativeInterest (last (schedule s)) = cumulativeInterestAcc s"])
  show "schedule s \<noteq> [] \<longrightarrow> cumulativeInterest (last (schedule s)) = cumulativeInterestAcc s"
    by (rule start)
next
  fix i s s'
  assume st: "paymentStep input n p f i s = Some s'"
  from st obtain a x where sch: "schedule s' = schedule s @ [x]"
    and xc: "cumulativeInterestAcc s' = cumulativeInterest x"
    by (rule paymentStep_SomeE)
  have "schedule s' \<noteq> [] \<longrightarrow> cumulativeInterest (last (schedule s')) = cumulativeInterestAcc s'"
    unfolding sch xc by simp
  then show "if currentBalance s' \<le> 0.01
    then schedule s' \<noteq> [] \<longrightarrow> cumulativeInterest (last (schedule s')) = cumulativeInterestAcc s'
    else schedule s' \<noteq> [] \<longrightarrow> cumulativeInterest (last (schedule s')) = cumulativeInterestAcc s'"
    by simp
qed

text \<open>A schedule with rows comes out of the loop.\<close>

lemma engine_result_cases:
  assumes "calculateAmortizationSchedule input = Inr (rows, summary)" and "rows \<noteq> []"
  obtains p f r where
    "amortizationLoop input (totalPaymentCount input) p f 1
       \<lparr>schedule = [], currentBalance = loanAmount input, cumulativeInterestAcc = 0,
        previousPaymentDate = startDate input, rateTermInterestAcc = 0,
        rateTermPrincipalAcc = 0\<rparr> = Some r"
    "rows = schedule r" "summary = summarize (Some p) r"
proof -
  define N where "N = totalPaymentCount input"
  define s0 where "s0 = \<lparr>schedule = [], currentBalance = loanAmount input,
        cumulativeInterestAcc = 0,
        previousPaymentDate = startDate input, rateTermInterestAcc = 0,
        rateTermPrincipalAcc = 0\<rparr>"
  define pm where "pm = calculatePaymentAmount (loanAmount input) (annualInterestRate input)
      (of_int N) (paymentsPerYear input) (compoundingFrequency input)"
  define fr where "fr = map_option Math_round (js_div 365.25 (paymentsPerYear input))"
  have c: "calculateAmortizationSchedule input =
     (if N < 1 then Inr (schedule s0, summarize pm s0)
      else case (pm, fr) of
             (Some p, Some f) \<Rightarrow>
               (case amortizationLoop input N p f 1 s0 of
                  None \<Rightarrow> Inl NoReturn
                | Some s \<Rightarrow> Inr (schedule s, summarize pm s))
           | _ \<Rightarrow> Inl NotFinite)"
    unfolding calculateAmortizationSchedule_def Let_def N_def s0_def pm_def fr_def
    by (rule refl)
  have N1: "\<not> N < 1" using assms c by (auto simp: s0_def)
  from assms c N1 obtain p f r where "pm = Some p" "fr = Some f"
    "amortizationLoop input N p f 1 s0 = Some r" "rows = schedule r" "summary = summarize pm r"
    by (auto split: option.splits simp del: amortizationLoop.simps)
  then show ?thesis using that [of p f r] unfolding N_def s0_def by simp
qed

section \<open>Claims about the business day adjuster\<close>

text \<open>
  Claim C7: for every input date, \<open>adjustPaymentDate\<close> returns a result; the forward scan
  over weekends and holidays reaches a business day after finitely many steps.
\<close>

theorem adjustPaymentDate_returns:
  "\<exists>r. adjustPaymentDate d = Some r"
  using adjustPaymentDate_finds [of d] by blast

text \<open>
  Claim C6: on a business day \<open>adjustPaymentDate\<close> returns the date unchanged; on any
  other day it returns the first business day strictly after it, a whole number of days
  later; and applying it to its own result changes nothing.
\<close>

theorem adjustPaymentDate_first_business_day:
  "(isBusinessDay d \<longrightarrow> adjustPaymentDate d = Some d) \<and>
   (\<not> isBusinessDay d \<longrightarrow>
      (\<exists>m r. adjustPaymentDate d = Some r \<and> 0 < m \<and> r = d + int m * msPerDay \<and>
             isBusinessDay r \<and>
             (\<forall>t. Day d < Day t \<and> Day t < Day r \<longrightarrow> \<not> isBusinessDay t))) \<and>
   (adjustPaymentDate d \<bind> adjustPaymentDate) = adjustPaymentDate d"
proof (intro conjI impI)
  assume "isBusinessDay d"
  then show "adjustPaymentDate d = Some d" by (simp add: adjustPaymentDate_def)
next
  assume nb: "\<not> isBusinessDay d"
  obtain m where m: "adjustPaymentDate d = Some (d + int m * msPerDay)"
    "isBusinessDay (d + int m * msPerDay)"
    "\<forall>j<m. \<not> isBusinessDay (d + int j * msPerDay)" "isBusinessDay d \<longleftrightarrow> m = 0"
    using adjustPaymentDate_finds [of d] by blast
  have pos: "0 < m" using nb m(4) by simp
  have "\<not> isBusinessDay t" if t: "Day d < Day t \<and> Day t < Day (d + int m * msPerDay)" for t
  proof -
    define j where "j = nat (Day t - Day d)"
    have "Day t < Day d + int m" using t by (simp add: Day_shift)
    then have "j < m" using t unfolding j_def by linarith
    then have "\<not> isBusinessDay (d + int j * msPerDay)" using m(3) by blast
    moreover have "Day (d + int j * msPerDay) = Day t" using t by (simp add: Day_shift j_def)
    ultimately show ?thesis using isBusinessDay_Day by blast
  qed
  with m(1,2) pos
  show "\<exists>m r. adjustPaymentDate d = Some r \<and> 0 < m \<and> r = d + int m * msPerDay \<and>
             isBusinessDay r \<and>
             (\<forall>t. Day d < Day t \<and> Day t < Day r \<longrightarrow> \<not> isBusinessDay t)"
    by blast
next
  obtain m where m: "adjustPaymentDate d = Some (d + int m * msPerDay)"
    "isBusinessDay (d + int m * msPerDay)"
    using adjustPaymentDate_finds [of d] by blast
  then show "(adjustPaymentDate d \<bind> adjustPaymentDate) = adjustPaymentDate d"
    by (simp add: adjustPaymentDate_def)
qed

text \<open>
  Monday 2024-09-09 is a business day and stays; Saturday 2024-09-07 moves over Sunday
  2024-09-08 to that Monday.
\<close>

theorem adjustPaymentDate_first_business_day_witness:
  "isBusinessDay 1725840000000 \<and> adjustPaymentDate 1725840000000 = Some 1725840000000 \<and>
   \<not> isBusinessDay 1725667200000 \<and> adjustPaymentDate 1725667200000 = Some 1725840000000 \<and>
   \<not> isBusinessDay 1725753600000 \<and>
   (adjustPaymentDate 1725667200000 \<bind> adjustPaymentDate) = Some 1725840000000"
proof -
  have a: "isBusinessDay 1725840000000" by code_simp
  have b: "\<not> isBusinessDay 1725667200000" by code_simp
  have c: "adjustPaymentDate 1725667200000 = Some 1725840000000" by code_simp
  note A = adjustPaymentDate_first_business_day [of 1725840000000]
  note B = adjustPaymentDate_first_business_day [of 1725667200000]
  from A a have 1: "adjustPaymentDate 1725840000000 = Some 1725840000000" by blast
  from B b c have "\<forall>t. Day 1725667200000 < Day t \<and> Day t < Day 1725840000000 \<longrightarrow> \<not> isBusinessDay t"
    by auto
  moreover have "Day 1725667200000 < Day 1725753600000 \<and> Day 1725753600000 < Day 1725840000000"
    by (simp add: Day_def msPerDay_def)
  ultimately have 2: "\<not> isBusinessDay 1725753600000" by blast
  from B c have 3: "(adjustPaymentDate 1725667200000 \<bind> adjustPaymentDate) = Some 1725840000000"
    by simp
  from a b c 1 2 3 show ?thesis by blast
qed

section \<open>Claims about the holiday calculator\<close>

text \<open>
  Claim C4: for every year from 1583 on, \<open>calculateEaster\<close> returns the date that the
  anonymous Gregorian algorithm of the specification gives; that date is a Sunday between
  March 22 and April 25 of the year; and it is March 31 for 2024 and April 20 for 2025.
\<close>

theorem calculateEaster_gauss:
  assumes "1583 \<le> year"
  shows "(calculateEaster year = newDate year (fst (spec_easter year) - 1) (snd (spec_easter year)) \<and>
     getFullYear (calculateEaster year) = year \<and>
     getMonth (calculateEaster year) + 1 = fst (spec_easter year) \<and>
     getDate (calculateEaster year) = snd (spec_easter year) \<and>
     getDay (calculateEaster year) = 0 \<and>
     ((fst (spec_easter year) = 3 \<and> 22 \<le> snd (spec_easter year) \<and> snd (spec_easter year) \<le> 31) \<or>
      (fst (spec_easter year) = 4 \<and> 1 \<le> snd (spec_easter year) \<and> snd (spec_easter year) \<le> 25))) \<and>
     (getMonth (calculateEaster 2024) + 1, getDate (calculateEaster 2024)) = (3, 31) \<and>
     (getMonth (calculateEaster 2025) + 1, getDate (calculateEaster 2025)) = (4, 20)"
proof -
  have h: "(1583::int) \<le> 2024" "(1583::int) \<le> 2025" by simp_all
  note g24 = calculateEaster_general [OF h(1), unfolded easter_2024 fst_conv snd_conv]
  note g25 = calculateEaster_general [OF h(2), unfolded easter_2025 fst_conv snd_conv]
  have a: "(getMonth (calculateEaster 2024) + 1, getDate (calculateEaster 2024)) = (3, 31)"
    by (simp only: g24 [THEN conjunct2, THEN conjunct2, THEN conjunct1]
        g24 [THEN conjunct2, THEN conjunct2, THEN conjunct2, THEN conjunct1])
  have b: "(getMonth (calculateEaster 2025) + 1, getDate (calculateEaster 2025)) = (4, 20)"
    by (simp only: g25 [THEN conjunct2, THEN conjunct2, THEN conjunct1]
        g25 [THEN conjunct2, THEN conjunct2, THEN conjunct2, THEN conjunct1])
  show ?thesis
    by (rule conjI [OF calculateEaster_general [OF assms] conjI [OF a b]])
qed

theorem calculateEaster_gauss_witness:
  "(1583::int) \<le> 2024 \<and>
   (getMonth (calculateEaster 2024) + 1, getDate (calculateEaster 2024)) = (3, 31) \<and>
   getFullYear (calculateEaster 2024) = 2024 \<and> getDay (calculateEaster 2024) = 0"
proof -
  have h: "(1583::int) \<le> 2024" by simp
  note g = calculateEaster_gauss [OF h]
  show ?thesis
    by (intro conjI h g [THEN conjunct2, THEN conjunct1]
        g [THEN conjunct1, THEN conjunct2, THEN conjunct1]
        g [THEN conjunct1, THEN conjunct2, THEN conjunct2, THEN conjunct2, THEN conjunct2,
           THEN conjunct1])
qed

text \<open>
  Claim C3: the holiday list contains the first Monday of September as Labour Day. In the
  source the first Monday is taken to be day \<open>8 - getDay()\<close> of the month unless the
  1st is a Monday, and that day is always a Sunday (\<open>labourDay_weekday\<close>). For 2024,
  whose September 1 is a Sunday, the list holds Sunday September 8; Monday September 2 is
  not in it and counts as a business day.
\<close>

theorem labourDay_2024_is_a_Sunday:
  "getCanadianHolidays 2024 ! 7 = newDate 2024 8 8 \<and>
   getDay (newDate 2024 8 8) = 0 \<and>
   getDay (newDate 2024 8 2) = 1 \<and>
   getMonth (newDate 2024 8 2) = 8 \<and> getDate (newDate 2024 8 2) = 2 \<and>
   newDate 2024 8 2 \<notin> set (getCanadianHolidays 2024) \<and>
   \<not> isCanadianHoliday (newDate 2024 8 2) \<and>
   isBusinessDay (newDate 2024 8 2)"
  by code_simp

section \<open>Claims about the payment amount and the unused fields\<close>

text \<open>
  Claim C9: for positive principal, payment count, payments per year and compounding
  frequency, a nominal rate of 0 makes \<open>calculatePaymentAmount\<close> return exactly
  principal / payment count: the effective rate is 0, the straight-line branch is taken
  and no division by zero occurs.
\<close>

theorem calculatePaymentAmount_zero_rate:
  assumes "0 < principal'" "0 < nPayments" "0 < perYear" "0 < compounding"
  shows "calculatePaymentAmount principal' 0 nPayments perYear compounding =
     Some (principal' / nPayments)"
  using assms by (simp add: calculatePaymentAmount_def js_div_def Math_pow_def)

theorem calculatePaymentAmount_zero_rate_witness:
  "(0::real) < 1000 \<and> (0::real) < 12 \<and> (0::real) < 2 \<and>
   calculatePaymentAmount 1000 0 12 12 2 = Some (1000 / 12)"
proof -
  have h: "(0::real) < 1000" "(0::real) < 12" "(0::real) < 2" by simp_all
  from calculatePaymentAmount_zero_rate [OF h(1) h(2) h(2) h(3)] h show ?thesis by simp
qed

text \<open>
  Claim C10: two inputs that differ only in \<open>paymentType\<close>, or only in
  \<open>rateTermMonths\<close>, give the same schedule and the same summary.
\<close>

theorem engine_ignores_paymentType_and_rateTermMonths:
  assumes "a\<lparr>paymentType := paymentType b\<rparr> = b \<or> a\<lparr>rateTermMonths := rateTermMonths b\<rparr> = b"
  shows "calculateAmortizationSchedule a = calculateAmortizationSchedule b"
proof -
  from assms have eq: "loanAmount a = loanAmount b" "annualInterestRate a = annualInterestRate b"
    "amortizationMonths a = amortizationMonths b" "paymentsPerYear a = paymentsPerYear b"
    "startDate a = startDate b" "firstPaymentDate a = firstPaymentDate b"
    "rateTermMaturityDate a = rateTermMaturityDate b"
    "compoundingFrequency a = compoundingFrequency b"
    by (cases a; cases b; auto)+
  have count: "totalPaymentCount a = totalPaymentCount b"
    by (simp only: totalPaymentCount_def eq)
  show ?thesis
    unfolding calculateAmortizationSchedule_def eq count amortizationLoop_cong [OF eq(2,6,7)]
    by (rule refl)
qed

theorem engine_ignores_paymentType_and_rateTermMonths_witness:
  "calculateAmortizationSchedule ex0 =
     calculateAmortizationSchedule (ex0\<lparr>paymentType := Beginning\<rparr>) \<and>
   calculateAmortizationSchedule ex0 =
     calculateAmortizationSchedule (ex0\<lparr>rateTermMonths := 60\<rparr>)"
proof -
  have 1: "ex0\<lparr>paymentType := paymentType (ex0\<lparr>paymentType := Beginning\<rparr>)\<rparr> =
           ex0\<lparr>paymentType := Beginning\<rparr> \<or>
        ex0\<lparr>rateTermMonths := rateTermMonths (ex0\<lparr>paymentType := Beginning\<rparr>)\<rparr> =
           ex0\<lparr>paymentType := Beginning\<rparr>" by simp
  have 2: "ex0\<lparr>paymentType := paymentType (ex0\<lparr>rateTermMonths := 60\<rparr>)\<rparr> =
           ex0\<lparr>rateTermMonths := 60\<rparr> \<or>
        ex0\<lparr>rateTermMonths := rateTermMonths (ex0\<lparr>rateTermMonths := 60\<rparr>)\<rparr> =
           ex0\<lparr>rateTermMonths := 60\<rparr>" by simp
  from engine_ignores_paymentType_and_rateTermMonths [OF 1]
    engine_ignores_paymentType_and_rateTermMonths [OF 2] show ?thesis by simp
qed

section \<open>Claims about the amortization engine\<close>

text \<open>
  Claim C8: when the schedule has rows, the summary's total interest is the cumulative
  interest of the last row, its total of payments is the sum of the rows' scheduled
  payments, and its number of payments is the number of rows.
\<close>

theorem summary_consistent:
  assumes "calculateAmortizationSchedule input = Inr (rows, summary)" and "rows \<noteq> []"
  shows "totalInterest summary = cumulativeInterest (last rows) \<and>
     totalPayments summary = sum_list (map scheduledPayment rows) \<and>
     numberOfPayments summary = length rows"
proof -
  from assms obtain p f r where
    l: "amortizationLoop input (totalPaymentCount input) p f 1
       \<lparr>schedule = [], currentBalance = loanAmount input, cumulativeInterestAcc = 0,
        previousPaymentDate = startDate input, rateTermInterestAcc = 0,
        rateTermPrincipalAcc = 0\<rparr> = Some r"
    and rows: "rows = schedule r" and summ: "summary = summarize (Some p) r"
    by (rule engine_result_cases)
  have "schedule r \<noteq> [] \<longrightarrow> cumulativeInterest (last (schedule r)) = cumulativeInterestAcc r"
    by (rule loop_cumulative [OF l]) simp
  then have 1: "totalInterest summary = cumulativeInterest (last rows)"
    using assms(2) by (simp add: rows summ summarize_def)
  have 2: "totalPayments summary = sum_list (map scheduledPayment rows)"
    by (simp add: rows summ summarize_def foldl_scheduledPayment)
  have 3: "numberOfPayments summary = length rows"
    by (simp add: rows summ summarize_def)
  from 1 2 3 show ?thesis by simp
qed

theorem summary_consistent_witness:
  "calculateAmortizationSchedule ex0 = Inr (ex0_schedule, ex0_summary) \<and> ex0_schedule \<noteq> [] \<and>
   totalInterest ex0_summary = cumulativeInterest (last ex0_schedule) \<and>
   totalPayments ex0_summary = sum_list (map scheduledPayment ex0_schedule) \<and>
   numberOfPayments ex0_summary = length ex0_schedule"
proof -
  have ne: "ex0_schedule \<noteq> []" by (simp add: ex0_schedule_def)
  from summary_consistent [OF ex0_result ne] ex0_result ne show ?thesis by simp
qed

text \<open>
  Claim C2, as the code has it: for every valid input with a positive payment count the
  payment the engine uses is the value of \<open>calculatePaymentAmount\<close>, which is the
  annuity payment of the specification at the effective rate of the specification, with
  \<open>n\<close> the engine's own count \<open>totalPayments\<close>: the floor of the double product
  \<open>(amortizationMonths / 12) * paymentsPerYear\<close>, not of the exact one. Each row pays that
  amount less its interest as principal, or the whole balance.
\<close>

theorem engine_payment_is_annuity:
  assumes "loanInputSchema input" "0 < totalPaymentCount input"
  shows "\<exists>rows summary. calculateAmortizationSchedule input = Inr (rows, summary) \<and>
     monthlyPayment summary =
       calculatePaymentAmount (loanAmount input) (annualInterestRate input)
         (of_int (totalPaymentCount input))
         (paymentsPerYear input) (compoundingFrequency input) \<and>
     monthlyPayment summary =
       Some (spec_payment (loanAmount input)
         (spec_effectiveRate (annualInterestRate input) (compoundingFrequency input)
            (paymentsPerYear input))
         (nat (totalPaymentCount input))) \<and>
     (\<forall>row\<in>set rows.
        principalPayment row =
          spec_payment (loanAmount input)
            (spec_effectiveRate (annualInterestRate input) (compoundingFrequency input)
               (paymentsPerYear input))
            (nat (totalPaymentCount input))
          - interestPayment row \<or>
        principalPayment row = beginningBalance row)"
proof -
  define N where "N = totalPaymentCount input"
  define p where "p = spec_payment (loanAmount input)
      (spec_effectiveRate (annualInterestRate input) (compoundingFrequency input)
         (paymentsPerYear input)) (nat N)"
  define f where "f = Math_round (365.25 / paymentsPerYear input)"
  from assms(1) have pos: "0 < annualInterestRate input" "0 < paymentsPerYear input"
    "0 < compoundingFrequency input"
    unfolding loanInputSchema_def by simp_all
  have N1: "1 \<le> N" "0 < N" using assms(2) by (simp_all add: N_def)
  have pe: "calculatePaymentAmount (loanAmount input) (annualInterestRate input)
      (of_int N) (paymentsPerYear input) (compoundingFrequency input) = Some p"
    unfolding p_def by (rule calculatePaymentAmount_annuity [OF pos N1(2)])
  have fe: "map_option Math_round (js_div 365.25 (paymentsPerYear input)) = Some f"
    unfolding f_def using frequency_nonneg [OF pos(2)] by simp
  from engine_runs [OF N1(1) [unfolded N_def] pe [unfolded N_def] fe]
  obtain r where r: "amortizationLoop input N p f 1
       \<lparr>schedule = [], currentBalance = loanAmount input, cumulativeInterestAcc = 0,
        previousPaymentDate = startDate input, rateTermInterestAcc = 0,
        rateTermPrincipalAcc = 0\<rparr> = Some r"
    and c: "calculateAmortizationSchedule input = Inr (schedule r, summarize (Some p) r)"
    unfolding N_def by blast
  have rows: "\<forall>row\<in>set (schedule r).
       principalPayment row = p - interestPayment row \<or> principalPayment row = beginningBalance row"
    by (rule loop_rows [OF r]) simp
  have m: "monthlyPayment (summarize (Some p) r) = Some p" by (simp add: summarize_def)
  show ?thesis
    unfolding N_def [symmetric] p_def [symmetric] pe
    using c m rows by blast
qed

text \<open>
  For 13 months at 108 payments a year the exact product is 117, the double product is
  116.99999999999999: the engine plans 116 payments and its payment is the annuity payment
  of 116 periods (about 88.53), which is above the one of 117 periods (about 87.80).
\<close>

theorem payment_count_counterexample:
  "loanInputSchema exF \<and>
   \<lfloor>amortizationMonths exF / 12 * paymentsPerYear exF\<rfloor> = 117 \<and>
   totalPaymentCount exF = 116 \<and>
   map_sum id (monthlyPayment \<circ> snd) (calculateAmortizationSchedule exF) =
     Inr (Some (spec_payment 10000 (spec_effectiveRate 5 2 108) 116)) \<and>
   spec_payment 10000 (spec_effectiveRate 5 2 108) 117 <
     spec_payment 10000 (spec_effectiveRate 5 2 108) 116"
proof -
  have v: "loanInputSchema exF" by (simp add: loanInputSchema_def exF_def)
  have x: "\<lfloor>amortizationMonths exF / 12 * paymentsPerYear exF\<rfloor> = 117"
    by (simp add: exF_def)
  have f: "loanAmount exF = 10000" "annualInterestRate exF = 5" "paymentsPerYear exF = 108"
    "compoundingFrequency exF = 2"
    by (simp_all add: exF_def)
  have pe: "calculatePaymentAmount (loanAmount exF) (annualInterestRate exF)
      (of_int (totalPaymentCount exF)) (paymentsPerYear exF) (compoundingFrequency exF) =
      Some (spec_payment 10000 (spec_effectiveRate 5 2 108) (nat 116))"
    unfolding exF_count f by (rule calculatePaymentAmount_annuity) simp_all
  have fe: "map_option Math_round (js_div 365.25 (paymentsPerYear exF)) =
      Some (Math_round (365.25 / paymentsPerYear exF))"
    by (rule frequency_nonneg) (simp add: f)
  have n1: "1 \<le> totalPaymentCount exF" by (simp add: exF_count)
  from engine_runs [OF n1 pe fe] obtain r where
    "calculateAmortizationSchedule exF =
       Inr (schedule r, summarize (Some (spec_payment 10000 (spec_effectiveRate 5 2 108) (nat 116))) r)"
    by blast
  then have m: "map_sum id (monthlyPayment \<circ> snd) (calculateAmortizationSchedule exF) =
     Inr (Some (spec_payment 10000 (spec_effectiveRate 5 2 108) 116))"
    by (simp add: summarize_def)
  have "0 < spec_effectiveRate 5 2 108" by (rule effectiveRate_pos) simp_all
  then have "spec_payment 10000 (spec_effectiveRate 5 2 108) (Suc 116) <
     spec_payment 10000 (spec_effectiveRate 5 2 108) 116"
    by (intro spec_payment_decreasing) simp_all
  then have d: "spec_payment 10000 (spec_effectiveRate 5 2 108) 117 <
     spec_payment 10000 (spec_effectiveRate 5 2 108) 116"
    by simp
  show ?thesis by (intro conjI v x exF_count m d)
qed

theorem engine_payment_is_annuity_witness:
  "loanInputSchema ex0 \<and> 0 < totalPaymentCount ex0 \<and>
   calculateAmortizationSchedule ex0 = Inr (ex0_schedule, ex0_summary) \<and>
   calculatePaymentAmount 1000 50 2 1 1 = Some 900 \<and>
   spec_payment 1000 (spec_effectiveRate 50 1 1) 2 = 900"
proof -
  have h: "0 < totalPaymentCount ex0" by (simp add: ex0_count)
  have v: "loanAmount ex0 = 1000" "annualInterestRate ex0 = 50" "paymentsPerYear ex0 = 1"
    "compoundingFrequency ex0 = 1"
    by (simp_all add: ex0_def)
  note T = engine_payment_is_annuity [OF ex0_valid h, unfolded ex0_count, unfolded v]
  have n2: "nat 2 = 2" "real_of_int 2 = 2" by simp_all
  from T obtain rows summary where
    c: "calculateAmortizationSchedule ex0 = Inr (rows, summary)"
    and m: "monthlyPayment summary = calculatePaymentAmount 1000 50 2 1 1"
      "monthlyPayment summary = Some (spec_payment 1000 (spec_effectiveRate 50 1 1) 2)"
    unfolding n2 by blast
  from c have "summary = ex0_summary" by (simp add: ex0_result)
  then have m9: "monthlyPayment summary = Some 900" by (simp add: ex0_summary_def)
  have 1: "calculatePaymentAmount 1000 50 2 1 1 = Some 900" using m(1) m9 by simp
  have 2: "spec_payment 1000 (spec_effectiveRate 50 1 1) 2 = 900" using m(2) m9 by simp
  show ?thesis by (intro conjI ex0_valid h ex0_result 1 2)
qed

text \<open>
  Claim C1, as the code has it: for every valid input the engine returns a schedule in
  which each row begins with the balance the row before ended with; a row's ending
  balance is at most its beginning balance whenever the row's interest does not exceed the
  fixed payment; payment dates do not decrease; and the schedule has at most
  \<open>totalPayments\<close> rows, the count \<open>Math.floor((amortizationMonths / 12) * paymentsPerYear)\<close>
  as the engine computes it in double arithmetic (\<open>totalPaymentCount\<close>), every row but
  the last leaves more than 0.01, and the schedule either has exactly that many rows or
  ends with a row that leaves at most 0.01.
\<close>

theorem schedule_balances_and_termination:
  assumes "loanInputSchema input"
  shows "\<exists>rows summary. calculateAmortizationSchedule input = Inr (rows, summary) \<and>
     chained rows \<and>
     (\<forall>row\<in>set rows. \<exists>p. monthlyPayment summary = Some p \<and>
        (interestPayment row \<le> p \<longrightarrow> endingBalance row \<le> beginningBalance row)) \<and>
     datesAscending rows \<and>
     openBefore rows \<and>
     int (length rows) \<le> totalPaymentCount input \<and>
     (int (length rows) = totalPaymentCount input \<or>
      (rows \<noteq> [] \<and> endingBalance (last rows) \<le> 0.01))"
proof -
  from valid_run [OF assms] obtain rows summary where
    c: "calculateAmortizationSchedule input = Inr (rows, summary)"
    and p: "chained rows" "datesAscending rows" "openBefore rows"
    and s: "\<forall>row\<in>set rows. \<exists>p. monthlyPayment summary = Some p \<and> rowSound p row"
    and l: "int (length rows) \<le> totalPaymentCount input"
      "int (length rows) = totalPaymentCount input \<or>
       (rows \<noteq> [] \<and> endingBalance (last rows) \<le> 0.01)"
    by blast
  from s have "\<forall>row\<in>set rows. \<exists>p. monthlyPayment summary = Some p \<and>
        (interestPayment row \<le> p \<longrightarrow> endingBalance row \<le> beginningBalance row)"
    unfolding rowSound_def by blast
  with c p l show ?thesis by blast
qed

text \<open>
  In the worked example the first payment falls 735 days after the start: the interest of
  the first row is above the payment of 900, and the balance grows from 1000 to about 1106.
\<close>

theorem balance_monotonicity_counterexample:
  "loanInputSchema ex0 \<and>
   calculateAmortizationSchedule ex0 = Inr (ex0_schedule, ex0_summary) \<and>
   beginningBalance (ex0_schedule ! 0) = 1000 \<and>
   endingBalance (ex0_schedule ! 0) = 538700 / 487 \<and>
   \<not> endingBalance (ex0_schedule ! 0) \<le> beginningBalance (ex0_schedule ! 0)"
  using ex0_valid ex0_result by (simp add: ex0_schedule_def)

theorem schedule_balances_and_termination_witness:
  "loanInputSchema ex0 \<and>
   calculateAmortizationSchedule ex0 = Inr (ex0_schedule, ex0_summary) \<and>
   beginningBalance (ex0_schedule ! 1) = endingBalance (ex0_schedule ! 0) \<and>
   paymentDate (ex0_schedule ! 0) \<le> paymentDate (ex0_schedule ! 1) \<and>
   endingBalance (ex0_schedule ! 0) > 0.01 \<and>
   interestPayment (ex0_schedule ! 1) \<le> 900 \<and>
   endingBalance (ex0_schedule ! 1) \<le> beginningBalance (ex0_schedule ! 1) \<and>
   int (length ex0_schedule) = totalPaymentCount ex0"
proof -
  from schedule_balances_and_termination [OF ex0_valid] obtain rows summary where
    c: "calculateAmortizationSchedule ex0 = Inr (rows, summary)"
    and ch: "chained rows" and da: "datesAscending rows" and ob: "openBefore rows"
    and mono: "\<forall>row\<in>set rows. \<exists>p. monthlyPayment summary = Some p \<and>
        (interestPayment row \<le> p \<longrightarrow> endingBalance row \<le> beginningBalance row)"
    and l: "int (length rows) = totalPaymentCount ex0 \<or>
      (rows \<noteq> [] \<and> endingBalance (last rows) \<le> 0.01)"
    by blast
  from c have e: "rows = ex0_schedule" "summary = ex0_summary" by (simp_all add: ex0_result)
  have len: "length ex0_schedule = 2" by (simp add: ex0_schedule_def)
  have 1: "beginningBalance (ex0_schedule ! 1) = endingBalance (ex0_schedule ! 0)"
    using ch unfolding e chained_def len by simp
  have 2: "paymentDate (ex0_schedule ! 0) \<le> paymentDate (ex0_schedule ! 1)"
    using da unfolding e datesAscending_def len by simp
  have 3: "endingBalance (ex0_schedule ! 0) > 0.01"
    using ob unfolding e openBefore_def len by simp
  have i: "interestPayment (ex0_schedule ! 1) \<le> 900" by (simp add: ex0_schedule_def)
  have m: "monthlyPayment ex0_summary = Some 900" by (simp add: ex0_summary_def)
  have "ex0_schedule ! 1 \<in> set ex0_schedule" using len by simp
  with mono have "\<exists>p. monthlyPayment ex0_summary = Some p \<and>
        (interestPayment (ex0_schedule ! 1) \<le> p \<longrightarrow>
         endingBalance (ex0_schedule ! 1) \<le> beginningBalance (ex0_schedule ! 1))"
    unfolding e by blast
  then have 4: "endingBalance (ex0_schedule ! 1) \<le> beginningBalance (ex0_schedule ! 1)"
    using i m by auto
  have 5: "int (length ex0_schedule) = totalPaymentCount ex0"
    by (simp add: len ex0_count)
  show ?thesis by (intro conjI ex0_valid ex0_result 1 2 3 i 4 5)
qed

text \<open>
  Claim C5, as the code has it: for every valid input every row has a non-negative
  interest payment; its principal payment is non-negative whenever its interest does not
  exceed the fixed payment; and a row with a negative principal payment has interest above
  the fixed payment and pays the payment less the interest as principal.
\<close>

theorem schedule_payments_nonnegative:
  assumes "loanInputSchema input"
  shows "\<exists>rows summary. calculateAmortizationSchedule input = Inr (rows, summary) \<and>
     (\<forall>row\<in>set rows. \<exists>p. monthlyPayment summary = Some p \<and>
        0 \<le> interestPayment row \<and>
        (interestPayment row \<le> p \<longrightarrow> 0 \<le> principalPayment row) \<and>
        (principalPayment row < 0 \<longrightarrow>
           p < interestPayment row \<and> principalPayment row = p - interestPayment row))"
proof -
  from valid_run [OF assms] obtain rows summary where
    c: "calculateAmortizationSchedule input = Inr (rows, summary)"
    and s: "\<forall>row\<in>set rows. \<exists>p. monthlyPayment summary = Some p \<and> rowSound p row"
    by blast
  from s have "\<forall>row\<in>set rows. \<exists>p. monthlyPayment summary = Some p \<and>
        0 \<le> interestPayment row \<and>
        (interestPayment row \<le> p \<longrightarrow> 0 \<le> principalPayment row) \<and>
        (principalPayment row < 0 \<longrightarrow>
           p < interestPayment row \<and> principalPayment row = p - interestPayment row)"
    unfolding rowSound_def by blast
  with c show ?thesis by blast
qed

text \<open>The first row of the worked example pays a negative principal.\<close>

theorem principal_nonnegative_counterexample:
  "loanInputSchema ex0 \<and>
   calculateAmortizationSchedule ex0 = Inr (ex0_schedule, ex0_summary) \<and>
   principalPayment (ex0_schedule ! 0) = - (51700 / 487) \<and>
   principalPayment (ex0_schedule ! 0) < 0"
  using ex0_valid ex0_result by (simp add: ex0_schedule_def)

theorem schedule_payments_nonnegative_witness:
  "loanInputSchema ex0 \<and>
   calculateAmortizationSchedule ex0 = Inr (ex0_schedule, ex0_summary) \<and>
   0 \<le> interestPayment (ex0_schedule ! 0) \<and>
   0 \<le> interestPayment (ex0_schedule ! 1) \<and>
   interestPayment (ex0_schedule ! 1) \<le> 900 \<and>
   0 \<le> principalPayment (ex0_schedule ! 1) \<and>
   principalPayment (ex0_schedule ! 0) < 0 \<and>
   principalPayment (ex0_schedule ! 0) = 900 - interestPayment (ex0_schedule ! 0)"
proof -
  from schedule_payments_nonnegative [OF ex0_valid] obtain rows summary where
    c: "calculateAmortizationSchedule ex0 = Inr (rows, summary)"
    and s: "\<forall>row\<in>set rows. \<exists>p. monthlyPayment summary = Some p \<and>
        0 \<le> interestPayment row \<and>
        (interestPayment row \<le> p \<longrightarrow> 0 \<le> principalPayment row) \<and>
        (principalPayment row < 0 \<longrightarrow>
           p < interestPayment row \<and> principalPayment row = p - interestPayment row)"
    by blast
  from c have e: "rows = ex0_schedule" "summary = ex0_summary" by (simp_all add: ex0_result)
  have len: "length ex0_schedule = 2" by (simp add: ex0_schedule_def)
  have m: "monthlyPayment ex0_summary = Some 900" by (simp add: ex0_summary_def)
  have in0: "ex0_schedule ! 0 \<in> set ex0_schedule" and in1: "ex0_schedule ! 1 \<in> set ex0_schedule"
    using len by simp_all
  have i: "interestPayment (ex0_schedule ! 1) \<le> 900" by (simp add: ex0_schedule_def)
  have n: "principalPayment (ex0_schedule ! 0) < 0" by (simp add: ex0_schedule_def)
  from s in0 have r0: "0 \<le> interestPayment (ex0_schedule ! 0) \<and>
      (principalPayment (ex0_schedule ! 0) < 0 \<longrightarrow>
        principalPayment (ex0_schedule ! 0) = 900 - interestPayment (ex0_schedule ! 0))"
    unfolding e using m by fastforce
  from s in1 have r1: "0 \<le> interestPayment (ex0_schedule ! 1) \<and>
      (interestPayment (ex0_schedule ! 1) \<le> 900 \<longrightarrow> 0 \<le> principalPayment (ex0_schedule ! 1))"
    unfolding e using m by fastforce
  show ?thesis
    by (intro conjI ex0_valid ex0_result i n) (use r0 r1 i n in blast)+
qed

end
